theory Spec2Isabelle
  imports Main "HOL-Library.Sublist"
begin

section \<open>Strings and the Go library functions used by ninja.go\<close>

text \<open>
  A Go string is a sequence of bytes; it is modelled as \<^typ>\<open>string\<close>, a list of
  8-bit characters. \<open>len\<close> is \<^const>\<open>length\<close>, \<open>s[i:]\<close> is \<^const>\<open>drop\<close>
  and \<open>s[:i]\<close> is \<^const>\<open>take\<close>. Every byte the generator compares against is
  ASCII, and no byte of a multi-byte UTF-8 sequence is ASCII, so scanning bytes and
  scanning runes (\<open>for i, c := range s\<close>) take the same decisions at the same byte
  offsets.
\<close>

abbreviation SQUOTE :: char where "SQUOTE \<equiv> CHR 0x27"
abbreviation DQUOTE :: char where "DQUOTE \<equiv> CHR 0x22"
abbreviation BQUOTE :: char where "BQUOTE \<equiv> CHR 0x60"
abbreviation BSLASH :: char where "BSLASH \<equiv> CHR 0x5C"
abbreviation NEWLINE :: char where "NEWLINE \<equiv> CHR 0x0A"
abbreviation TAB :: char where "TAB \<equiv> CHR 0x09"
abbreviation NUL :: char where "NUL \<equiv> CHR 0x00"

text \<open>\<open>strings.Index(s, sub)\<close>: the offset of the first occurrence of \<open>sub\<close> in
  \<open>s\<close>; \<open>None\<close> stands for Go's \<open>-1\<close>.\<close>

fun Index :: "string \<Rightarrow> string \<Rightarrow> nat option" where
  "Index [] sub = (if sub = [] then Some 0 else None)"
| "Index (c # s) sub =
     (if prefix sub (c # s) then Some 0 else map_option Suc (Index s sub))"

text \<open>\<open>strings.Contains(s, sub)\<close> is \<open>strings.Index(s, sub) >= 0\<close>.\<close>

definition Contains :: "string \<Rightarrow> string \<Rightarrow> bool" where
  "Contains s sub = (Index s sub \<noteq> None)"

text \<open>\<open>strings.IndexAny(s, chars)\<close>: the offset of the first byte of \<open>s\<close> that is
  one of \<open>chars\<close>.\<close>

fun IndexAny :: "string \<Rightarrow> string \<Rightarrow> nat option" where
  "IndexAny [] chars = None"
| "IndexAny (c # s) chars =
     (if c \<in> set chars then Some 0 else map_option Suc (IndexAny s chars))"

text \<open>\<open>strings.IndexByte(s, c)\<close>.\<close>

fun IndexByte :: "string \<Rightarrow> char \<Rightarrow> nat option" where
  "IndexByte [] b = None"
| "IndexByte (c # s) b = (if c = b then Some 0 else map_option Suc (IndexByte s b))"

text \<open>\<open>strings.TrimRight(s, cutset)\<close>: \<open>s\<close> without its trailing bytes that are
  in \<open>cutset\<close>.\<close>

definition TrimRight :: "string \<Rightarrow> string \<Rightarrow> string" where
  "TrimRight s cutset = rev (dropWhile (\<lambda>c. c \<in> set cutset) (rev s))"

text \<open>\<open>strings.Replace(s, old, new, -1)\<close> for a non-empty \<open>old\<close> (the only use in
  ninja.go): every non-overlapping occurrence of \<open>old\<close>, found left to right, is
  replaced by \<open>new\<close>.\<close>

function Replace :: "string \<Rightarrow> string \<Rightarrow> string \<Rightarrow> string" where
  "Replace [] old new = []"
| "Replace (c # s) old new =
     (if old \<noteq> [] \<and> prefix old (c # s)
      then new @ Replace (drop (length old) (c # s)) old new
      else c # Replace s old new)"
  by pat_completeness auto
termination
  by (relation "measure (\<lambda>(s, old, new). length s)") (auto simp: neq_Nil_conv)

text \<open>\<open>filepath.Ext(path)\<close> on a system whose separator is \<open>/\<close>: the suffix that
  begins at the last dot of the last element of the path, empty when that element has
  no dot. The scan runs from the end of the path towards its start, here over the
  reversed path with the bytes passed so far in \<open>acc\<close>.\<close>

fun ExtScan :: "string \<Rightarrow> string \<Rightarrow> string" where
  "ExtScan [] acc = []"
| "ExtScan (c # r) acc =
     (if c = CHR ''/'' then []
      else if c = CHR ''.'' then c # acc
      else ExtScan r (c # acc))"

definition Ext :: "string \<Rightarrow> string" where
  "Ext path = ExtScan (rev path) []"

text \<open>\<open>filepath.Base(path)\<close> with separator \<open>/\<close>: \<open>"."\<close> for the empty path;
  otherwise trailing separators are dropped and the last element is returned, \<open>"/"\<close>
  when nothing else is left.\<close>

definition Base :: "string \<Rightarrow> string" where
  "Base path =
     (if path = [] then ''.''
      else
        (let p = rev (dropWhile (\<lambda>c. c = CHR ''/'') (rev path));
             e = rev (takeWhile (\<lambda>c. c \<noteq> CHR ''/'') (rev p))
         in if e = [] then ''/'' else e))"

subsection \<open>Helpers of the repository that live outside ninja.go\<close>

text \<open>Modelled from the spec: \<open>trimLeftSpace\<close> is called by ninja.go and declared in
  another file of the repository. The spec's words are "trim leading whitespace"; the
  whitespace bytes are the ones the spec's own trailing trim and token delimiter use:
  space, tab and newline.\<close>

definition isWhitespace :: "char \<Rightarrow> bool" where
  "isWhitespace c = (c = CHR '' '' \<or> c = TAB \<or> c = NEWLINE)"

definition trimLeftSpace :: "string \<Rightarrow> string" where
  "trimLeftSpace s = dropWhile isWhitespace s"

text \<open>Modelled from the spec: \<open>stripExt\<close> is called by ninja.go and declared in
  another file of the repository. The spec's words are "strip the path's extension":
  the path without its \<open>filepath.Ext\<close> suffix.\<close>

definition stripExt :: "string \<Rightarrow> string" where
  "stripExt s = take (length s - length (Ext s)) s"

section \<open>stripShellComment\<close>

text \<open>
  The loop of \<open>stripShellComment\<close>: \<open>i\<close> is the byte offset of \<open>c\<close> in \<open>s\<close>,
  \<open>escape\<close> and \<open>quote\<close> are the two local variables; \<open>quote\<close> is \<open>NUL\<close> (Go's
  rune 0) outside quotes, and \<open>quote > 0\<close> is \<open>quote \<noteq> NUL\<close>.
\<close>

fun stripLoop :: "string \<Rightarrow> nat \<Rightarrow> bool \<Rightarrow> char \<Rightarrow> string \<Rightarrow> string" where
  "stripLoop s i escape quote [] = s"
| "stripLoop s i escape quote (c # cs) =
     (if quote \<noteq> NUL then
        stripLoop s (Suc i) (if escape then False else c = BSLASH)
          (if quote = c \<and> (quote = SQUOTE \<or> \<not> escape) then NUL else quote) cs
      else if \<not> escape then
        (if c = CHR ''#'' then take i s
         else stripLoop s (Suc i) (c = BSLASH)
           (if c = SQUOTE \<or> c = DQUOTE \<or> c = BQUOTE then c else quote) cs)
      else stripLoop s (Suc i) False quote cs)"

definition stripShellComment :: "string \<Rightarrow> string" where
  "stripShellComment s =
     (if IndexByte s (CHR ''#'') = None then s
      else stripLoop s 0 False NUL s)"

subsection \<open>The contract of the stripper, in the spec's words\<close>

text \<open>
  The lexical context of a position, read off the spec: outside any quote (with or
  without a pending escape), inside single quotes (where a backslash is literal), and
  inside double quotes or backticks (with or without a pending escape).
\<close>

datatype lexctx = Plain | PlainEsc | InSingle | InDouble | InDoubleEsc | InBack | InBackEsc

fun lexstep :: "lexctx \<Rightarrow> char \<Rightarrow> lexctx" where
  "lexstep Plain c =
     (if c = BSLASH then PlainEsc
      else if c = SQUOTE then InSingle
      else if c = DQUOTE then InDouble
      else if c = BQUOTE then InBack
      else Plain)"
| "lexstep PlainEsc c = Plain"
| "lexstep InSingle c = (if c = SQUOTE then Plain else InSingle)"
| "lexstep InDouble c =
     (if c = BSLASH then InDoubleEsc else if c = DQUOTE then Plain else InDouble)"
| "lexstep InDoubleEsc c = InDouble"
| "lexstep InBack c =
     (if c = BSLASH then InBackEsc else if c = BQUOTE then Plain else InBack)"
| "lexstep InBackEsc c = InBack"

text \<open>The offset of the first comment marker that is outside every quote and not
  escaped, for a text that is read in context \<open>x\<close>.\<close>

fun commentStart :: "lexctx \<Rightarrow> string \<Rightarrow> nat option" where
  "commentStart x [] = None"
| "commentStart x (c # cs) =
     (if x = Plain \<and> c = CHR ''#'' then Some 0
      else map_option Suc (commentStart (lexstep x c) cs))"

definition stripSpec :: "string \<Rightarrow> string" where
  "stripSpec s = (case commentStart Plain s of None \<Rightarrow> s | Some i \<Rightarrow> take i s)"

text \<open>The lexical context that a pair of loop variables stands for.\<close>

fun ctxOf :: "bool \<Rightarrow> char \<Rightarrow> lexctx" where
  "ctxOf escape quote =
     (if quote = NUL then (if escape then PlainEsc else Plain)
      else if quote = SQUOTE then InSingle
      else if quote = DQUOTE then (if escape then InDoubleEsc else InDouble)
      else (if escape then InBackEsc else InBack))"

section \<open>Errors\<close>

text \<open>
  The values that \<open>getDepfile\<close> returns as \<open>error\<close> and \<open>emitNode\<close> passes to
  \<open>panic\<close>, the panic of dereferencing a nil \<open>*DepNode\<close>, and the panics of
  \<open>generateShell\<close> and \<open>generateNinja\<close> on a failed file operation. A panic leaves
  the call; the result of a function that can panic is \<open>error + 'a\<close>, \<open>Inl\<close> for the
  panic.
\<close>

datatype error =
    MultipleCandidates string  \<comment> \<open>\<open>"Multiple output file candidates in %s"\<close>\<close>
  | CannotFindDepfile string   \<comment> \<open>\<open>"Cannot find the depfile in %s"\<close>\<close>
  | NilDereference
  | CreateFailed
  | ChmodFailed

section \<open>getDepfileImpl and getDepfile\<close>

text \<open>\<open>s[:i]\<close> when \<open>i := strings.IndexAny(s, " \t\n")\<close> is not negative, else
  \<open>s\<close>: the two places where a flag's argument is cut at its end.\<close>

definition cutAtSpace :: "string \<Rightarrow> string" where
  "cutAtSpace s =
     (case IndexAny s [CHR '' '', TAB, NEWLINE] of None \<Rightarrow> s | Some e \<Rightarrow> take e s)"

definition getDepfileImpl :: "string \<Rightarrow> error + string" where
  "getDepfileImpl ss =
     (let tss = ss @ '' '' in
      if \<not> Contains tss '' -MD '' \<and> \<not> Contains tss '' -MMD '' then Inr []
      else
        (case Index ss '' -MF '' of
           Some mfIndex \<Rightarrow>
             (let mf = trimLeftSpace (drop (mfIndex + 4) ss) in
              if Index mf '' -MF '' \<noteq> None then Inl (MultipleCandidates ss)
              else Inr (cutAtSpace mf))
         | None \<Rightarrow>
             (case Index ss '' -o '' of
                None \<Rightarrow> Inl (CannotFindDepfile ss)
              | Some outIndex \<Rightarrow>
                  (let out = trimLeftSpace (drop (outIndex + 4) ss) in
                   if Index out '' -o '' \<noteq> None then Inl (MultipleCandidates ss)
                   else Inr (stripExt (cutAtSpace out) @ ''.d'')))))"

definition getDepfile :: "string \<Rightarrow> error + string" where
  "getDepfile ss =
     (if Contains ss ''bin/llvm-rs-cc '' then Inr []
      else
        (case getDepfileImpl ss of
           Inl err \<Rightarrow> Inl err
         | Inr r \<Rightarrow>
             if r = [] then Inr r
             else
               (let p = stripExt r @ ''.P'' in
                if Contains ss p then Inr p
                else
                  (let as = ''/'' @ stripExt (Base r) @ ''.s'' in
                   if Contains ss as then Inr [] else Inr r))))"

section \<open>genShellScript\<close>

text \<open>The two fields of \<open>runner\<close> that ninja.go reads.\<close>

record runner =
  cmd :: string
  ignoreError :: bool

text \<open>
  The pattern of \<open>ccRe\<close>,
  \<^verbatim>\<open>^prebuilts/(gcc|clang)/.*(gcc|g\+\+|clang|clang\+\+) .* -c \<close>, as a matcher:
  \<open>.\<close> stands for any byte but a newline, and \<open>MatchString\<close> succeeds when a
  prefix of the text matches.
\<close>

definition ccReTail2 :: "string \<Rightarrow> bool" where
  "ccReTail2 u =
     (\<exists>j \<in> set [0..<Suc (length u)].
        NEWLINE \<notin> set (take j u) \<and> prefix '' -c '' (drop j u))"

definition ccReTail1 :: "string \<Rightarrow> bool" where
  "ccReTail1 t =
     (\<exists>i \<in> set [0..<Suc (length t)].
        NEWLINE \<notin> set (take i t) \<and>
        (\<exists>n \<in> set [''gcc'', ''g++'', ''clang'', ''clang++''].
           prefix (n @ '' '') (drop i t) \<and> ccReTail2 (drop (i + length n + 1) t)))"

definition ccReMatchString :: "string \<Rightarrow> bool" where
  "ccReMatchString s =
     (\<exists>x \<in> set [''gcc'', ''clang''].
        prefix (''prebuilts/'' @ x @ ''/'') s \<and> ccReTail1 (drop (length x + 11) s))"

text \<open>
  Lines 141 to 153: the text of one command as it goes into the chain, and whether the
  gomacc prefix was put before it. \<open>gomaDir\<close> is a global of the program that is
  declared outside ninja.go, \<open>re\<close> is \<open>n.ccRe.MatchString\<close>.
\<close>

definition normalizeCmd :: "string \<Rightarrow> (string \<Rightarrow> bool) \<Rightarrow> string \<Rightarrow> string \<times> bool" where
  "normalizeCmd gomaDir re c =
     (let cmd = stripShellComment c;
          cmd = trimLeftSpace cmd;
          cmd = Replace cmd [BSLASH, NEWLINE] '' '';
          cmd = TrimRight cmd [CHR '' '', TAB, NEWLINE, CHR '';''];
          cmd = Replace cmd ''$'' ''$$'';
          cmd = Replace cmd [TAB] '' '';
          cmd = (if cmd = [] then ''true'' else cmd)
      in if gomaDir \<noteq> [] \<and> re cmd then (gomaDir @ ''/gomacc '' @ cmd, True)
         else (cmd, False))"

text \<open>
  The loop of \<open>genShellScript\<close> from index \<open>i\<close> on, with the buffer \<open>buf\<close> and the
  flag \<open>useGomacc\<close> as they stand before iteration \<open>i\<close>. The normalised text is
  never empty, so \<open>cmd[0]\<close> is in range; it is read with \<^const>\<open>hd\<close>.
\<close>

function genShellLoop ::
  "string \<Rightarrow> (string \<Rightarrow> bool) \<Rightarrow> runner list \<Rightarrow> nat \<Rightarrow> string \<Rightarrow> bool \<Rightarrow> string \<times> bool" where
  "genShellLoop gomaDir re runners i buf useGomacc =
     (if i < length runners then
        (let r = runners ! i;
             buf = (if 0 < i
                    then (if ignoreError (runners ! (i - 1))
                          then buf @ '' ; '' else buf @ '' && '')
                    else buf);
             (cmd, used) = normalizeCmd gomaDir re (cmd r);
             useGomacc = (useGomacc \<or> used);
             needsSubShell = (0 < i \<or> 1 < length runners);
             needsSubShell = (if hd cmd = CHR ''('' then False else needsSubShell);
             buf = (if needsSubShell then buf @ ''('' else buf);
             buf = buf @ cmd;
             buf = (if i = length runners - 1 \<and> ignoreError r
                    then buf @ '' ; true'' else buf);
             buf = (if needsSubShell then buf @ '')'' else buf)
         in genShellLoop gomaDir re runners (Suc i) buf useGomacc)
      else (buf, gomaDir \<noteq> [] \<and> \<not> useGomacc))"
  by pat_completeness auto
termination
  by (relation "measure (\<lambda>(gomaDir, re, runners, i, buf, useGomacc). length runners - i)")
     auto

declare genShellLoop.simps [simp del]

definition genShellScript ::
  "string \<Rightarrow> (string \<Rightarrow> bool) \<Rightarrow> runner list \<Rightarrow> string \<times> bool" where
  "genShellScript gomaDir re runners = genShellLoop gomaDir re runners 0 [] False"

section \<open>The dependency graph and the generator\<close>

text \<open>
  A \<open>*DepNode\<close> is an address into the store of nodes; the store is a list and an
  address is an index into it. An address outside the store is the nil pointer. Sharing
  and cycles are lists of \<open>Deps\<close> that name an address more than once or name an
  address from which the node itself is reached. The fields are the ones ninja.go reads.
\<close>

type_synonym addr = nat

record DepNode =
  Output :: string
  Cmds :: "string list"
  Deps :: "addr list"
  IsOrderOnly :: bool
  IsPhony :: bool

type_synonym store = "DepNode list"

definition deref :: "store \<Rightarrow> addr \<Rightarrow> error + DepNode" where
  "deref h a = (if a < length h then Inr (h ! a) else Inl NilDereference)"

text \<open>\<open>fmt.Sprintf("%d", n)\<close> for a number that is not negative; byte 48 is the
  digit \<open>0\<close>.\<close>

function decimal :: "nat \<Rightarrow> string" where
  "decimal n =
     (if n < 10 then [char_of (48 + n)]
      else decimal (n div 10) @ [char_of (48 + n mod 10)])"
  by pat_completeness auto
termination
  by (relation "measure id") auto

declare decimal.simps [simp del]

text \<open>\<open>strings.Join(elems, sep)\<close>.\<close>

fun Join :: "string list \<Rightarrow> string \<Rightarrow> string" where
  "Join [] sep = []"
| "Join [x] sep = x"
| "Join (x # y # ys) sep = x @ sep @ Join (y # ys) sep"

text \<open>
  What the generator writes to build.ninja, one value for each call of
  \<open>fmt.Fprintf(n.f, ...)\<close> with the arguments of the call; \<open>renderNinja\<close> is the text
  of the call, and the file is the concatenation of the texts of its lines.
\<close>

datatype ninja_line =
    GeneratedBy
  | EmptyLine
  | PoolDecl
  | PoolDepth nat
  | RuleDecl string
  | Description
  | DepfileLine string
  | RspfileLine
  | RspfileContent string
  | CommandLine string
  | BuildStmt string string string
  | PoolLine

fun renderNinja :: "ninja_line \<Rightarrow> string" where
  "renderNinja GeneratedBy = ''# Generated by kati'' @ [NEWLINE]"
| "renderNinja EmptyLine = [NEWLINE]"
| "renderNinja PoolDecl = ''pool local_pool'' @ [NEWLINE]"
| "renderNinja (PoolDepth k) = '' depth = '' @ decimal k @ [NEWLINE]"
| "renderNinja (RuleDecl name) = ''rule '' @ name @ [NEWLINE]"
| "renderNinja Description = '' description = build $out'' @ [NEWLINE]"
| "renderNinja (DepfileLine d) = '' depfile = '' @ d @ [NEWLINE]"
| "renderNinja RspfileLine = '' rspfile = $out.rsp'' @ [NEWLINE]"
| "renderNinja (RspfileContent ss) = '' rspfile_content = '' @ ss @ [NEWLINE]"
| "renderNinja (CommandLine ss) = '' command = '' @ ss @ [NEWLINE]"
| "renderNinja (BuildStmt output rule dep) =
     ''build '' @ output @ '': '' @ rule @ dep @ [NEWLINE]"
| "renderNinja PoolLine = '' pool = local_pool'' @ [NEWLINE]"

text \<open>The lines of ninja.sh, in the same way.\<close>

datatype shell_line =
    Shebang string
  | ExportLine string string
  | UnsetLine string
  | ExecNinja
  | ExecNinjaJ300


text \<open>
  What ninja.go takes from the rest of the program and from the system: the global
  \<open>gomaDir\<close>, \<open>runtime.NumCPU()\<close>, the evaluator made from \<open>n.vars\<close>
  (\<open>ev.EvaluateVar\<close>), the executor made from \<open>n.vars\<close>
  (\<open>n.ex.createRunners(node, true)\<close>, by the address of the node, first result), and
  whether \<open>os.Create\<close> and \<open>f.Chmod\<close> succeed.
\<close>

record env =
  gomaDir :: string
  NumCPU :: nat
  EvaluateVar :: "string \<Rightarrow> string"
  createRunners :: "addr \<Rightarrow> runner list"
  createOk :: "string \<Rightarrow> bool"
  chmodOk :: bool

text \<open>
  \<open>DepGraph\<close> and \<open>NinjaGenerator\<close>. The fields \<open>vars\<close> and \<open>ex\<close> only reach the
  evaluator and the executor, which are in the environment. \<open>f\<close> is the content of
  build.ninja written so far. \<open>exports\<close> is a Go map: it is the list of its entries
  in the order in which \<open>range\<close> yields them, which Go leaves open; no key occurs
  twice. \<open>done'\<close> (the field \<open>done\<close>) is a \<open>map[string]bool\<close> that is only read by indexing, which
  gives \<open>false\<close> for a missing key. \<open>ruleId\<close> starts at 0 and is only incremented.
\<close>

record DepGraph =
  g_nodes :: "addr list"
  g_exports :: "(string \<times> bool) list"

record NinjaGenerator =
  f :: "ninja_line list"
  nodes :: "addr list"
  exports :: "(string \<times> bool) list"
  ruleId :: nat
  done' :: "string \<Rightarrow> bool"
  ccRe :: "string \<Rightarrow> bool"

definition NewNinjaGenerator :: "DepGraph \<Rightarrow> NinjaGenerator" where
  "NewNinjaGenerator g =
     \<lparr>f = [], nodes = g_nodes g, exports = g_exports g, ruleId = 0,
      done' = (\<lambda>_. False), ccRe = ccReMatchString\<rparr>"

definition fprintf :: "NinjaGenerator \<Rightarrow> ninja_line \<Rightarrow> NinjaGenerator" where
  "fprintf n l = n\<lparr>f := f n @ [l]\<rparr>"

definition genRuleName :: "NinjaGenerator \<Rightarrow> string \<times> NinjaGenerator" where
  "genRuleName n = (''rule'' @ decimal (ruleId n), n\<lparr>ruleId := ruleId n + 1\<rparr>)"

definition emitBuild :: "NinjaGenerator \<Rightarrow> string \<Rightarrow> string \<Rightarrow> string \<Rightarrow> NinjaGenerator" where
  "emitBuild n output rule dep = fprintf n (BuildStmt output rule dep)"

text \<open>The loop of \<open>getDepString\<close>; it reads \<open>d.IsOrderOnly\<close> and \<open>d.Output\<close>
  through the pointer \<open>d\<close>.\<close>

fun depLists ::
  "store \<Rightarrow> addr list \<Rightarrow> string list \<Rightarrow> string list \<Rightarrow> error + (string list \<times> string list)" where
  "depLists h [] deps orderOnlys = Inr (deps, orderOnlys)"
| "depLists h (d # ds) deps orderOnlys =
     (case deref h d of
        Inl err \<Rightarrow> Inl err
      | Inr dn \<Rightarrow>
          if IsOrderOnly dn then depLists h ds deps (orderOnlys @ [Output dn])
          else depLists h ds (deps @ [Output dn]) orderOnlys)"

definition getDepString :: "store \<Rightarrow> DepNode \<Rightarrow> error + string" where
  "getDepString h node =
     (case depLists h (Deps node) [] [] of
        Inl err \<Rightarrow> Inl err
      | Inr (deps, orderOnlys) \<Rightarrow>
          Inr ((if deps \<noteq> [] then '' '' @ Join deps '' '' else [])
               @ (if orderOnlys \<noteq> [] then '' || '' @ Join orderOnlys '' '' else [])))"

definition ArgLenLimit :: nat where
  "ArgLenLimit = 100 * 1000"

text \<open>Lines 215 to 243 of \<open>emitNode\<close>: the rule block. The result is the rule name
  for the build statement, \<open>useLocalPool\<close> and the generator.\<close>

definition emitRule ::
  "env \<Rightarrow> runner list \<Rightarrow> NinjaGenerator \<Rightarrow> error + (string \<times> bool \<times> NinjaGenerator)" where
  "emitRule E runners n =
     (if runners \<noteq> [] then
        (let (ruleName, n) = genRuleName n;
             n = fprintf n (RuleDecl ruleName);
             n = fprintf n Description;
             (ss, ulp) = genShellScript (gomaDir E) (ccRe n) runners
         in case getDepfile ss of
              Inl err \<Rightarrow> Inl err
            | Inr depfile \<Rightarrow>
                (let n = (if depfile \<noteq> [] then fprintf n (DepfileLine depfile) else n);
                     (n, ss) =
                        (if ArgLenLimit < length ss
                         then (fprintf (fprintf n RspfileLine) (RspfileContent ss),
                               ''sh $out.rsp'')
                         else (n, ss));
                     n = fprintf n (CommandLine ss)
                 in Inr (ruleName, ulp, n)))
      else Inr (''phony'', False, n))"

text \<open>Lines 214 to 247: everything \<open>emitNode\<close> does for a node it has not left early,
  up to the loop over the dependencies.\<close>

definition emitStatements ::
  "env \<Rightarrow> store \<Rightarrow> addr \<Rightarrow> DepNode \<Rightarrow> NinjaGenerator \<Rightarrow> error + NinjaGenerator" where
  "emitStatements E h a node n =
     (case emitRule E (createRunners E a) n of
        Inl err \<Rightarrow> Inl err
      | Inr (ruleName, useLocalPool, n) \<Rightarrow>
          (case getDepString h node of
             Inl err \<Rightarrow> Inl err
           | Inr dep \<Rightarrow>
               (let n = emitBuild n (Output node) ruleName dep
                in Inr (if useLocalPool then fprintf n PoolLine else n))))"

text \<open>\<open>emitNode\<close>, and its final loop \<open>for _, d := range node.Deps { n.emitNode(d) }\<close>
  as \<open>emitDeps\<close>.\<close>

function (domintros)
  emitNode :: "env \<Rightarrow> store \<Rightarrow> addr \<Rightarrow> NinjaGenerator \<Rightarrow> error + NinjaGenerator" and
  emitDeps :: "env \<Rightarrow> store \<Rightarrow> addr list \<Rightarrow> NinjaGenerator \<Rightarrow> error + NinjaGenerator"
where
  "emitNode E h a n =
     (case deref h a of
        Inl err \<Rightarrow> Inl err
      | Inr node \<Rightarrow>
          if done' n (Output node) then Inr n
          else
            (let n = n\<lparr>done' := (done' n)(Output node := True)\<rparr> in
             if Cmds node = [] \<and> Deps node = [] \<and> \<not> IsPhony node then Inr n
             else
               (case emitStatements E h a node n of
                  Inl err \<Rightarrow> Inl err
                | Inr n \<Rightarrow> emitDeps E h (Deps node) n)))"
| "emitDeps E h [] n = Inr n"
| "emitDeps E h (d # ds) n =
     (case emitNode E h d n of
        Inl err \<Rightarrow> Inl err
      | Inr n \<Rightarrow> emitDeps E h ds n)"
  by pat_completeness auto


text \<open>
  The recursion ends because \<open>emitNode\<close> sets \<open>done[node.Output]\<close> before it goes
  into the dependencies: the output paths of the store that are not yet done become
  fewer with every node whose body runs, and the store is finite.
\<close>

definition undone :: "store \<Rightarrow> NinjaGenerator \<Rightarrow> string set" where
  "undone h n = {p \<in> Output ` set h. \<not> done' n p}"

lemma finite_undone: "finite (undone h n)"
  by (simp add: undone_def)

lemma emitRule_done:
  "emitRule E runners n = Inr (ruleName, ulp, n') \<Longrightarrow> done' n' = done' n"
  by (auto simp: emitRule_def genRuleName_def fprintf_def Let_def
      split: if_splits sum.splits prod.splits)

lemma emitStatements_done:
  "emitStatements E h a node n = Inr n' \<Longrightarrow> done' n' = done' n"
  by (auto simp: emitStatements_def emitBuild_def fprintf_def Let_def
      dest: emitRule_done split: if_splits sum.splits prod.splits)

lemma emitNode_emitDeps_done_mono:
  "emitNode_emitDeps_dom (Inl (E, h, a, n)) \<Longrightarrow>
     emitNode E h a n = Inr n' \<Longrightarrow> done' n p \<Longrightarrow> done' n' p"
  "emitNode_emitDeps_dom (Inr (E, h, ds, n)) \<Longrightarrow>
     emitDeps E h ds n = Inr n' \<Longrightarrow> done' n p \<Longrightarrow> done' n' p"
proof (induction E h a n and E h ds n arbitrary: n' and n' rule: emitNode_emitDeps.pinduct)
  case (1 E h a n)
  from "1.prems" "1.hyps" obtain node where node: "deref h a = Inr node"
    by (auto simp: emitNode.psimps split: sum.splits)
  show ?case
  proof (cases "done' n (Output node)")
    case True
    with "1.prems" "1.hyps" node show ?thesis
      by (simp add: emitNode.psimps)
  next
    case False
    let ?x = "n\<lparr>done' := (done' n)(Output node := True)\<rparr>"
    show ?thesis
    proof (cases "Cmds node = [] \<and> Deps node = [] \<and> \<not> IsPhony node")
      case True
      with "1.prems" "1.hyps" node False have "n' = ?x"
        by (simp add: emitNode.psimps)
      with "1.prems" show ?thesis by simp
    next
      case nonleaf: False
      from "1.prems" "1.hyps" node False nonleaf obtain n2 where
        n2: "emitStatements E h a node ?x = Inr n2" and
        deps: "emitDeps E h (Deps node) n2 = Inr n'"
        by (auto simp: emitNode.psimps Let_def split: sum.splits)
      have "done' n2 p"
        using emitStatements_done [OF n2] "1.prems" by simp
      with "1.IH" [OF node False refl nonleaf n2 deps] show ?thesis .
    qed
  qed
next
  case (2 E h n)
  then show ?case by (simp add: emitDeps.psimps)
next
  case (3 E h d ds n)
  from "3.prems" "3.hyps" obtain n1 where
    n1: "emitNode E h d n = Inr n1" and rest: "emitDeps E h ds n1 = Inr n'"
    by (auto simp: emitDeps.psimps split: sum.splits)
  have "done' n1 p" using "3.IH"(1) [OF n1] "3.prems" by simp
  with "3.IH"(2) [OF n1 rest] show ?case .
qed

lemma undone_mono:
  assumes "\<And>p. done' n p \<Longrightarrow> done' n' p"
  shows "card (undone h n') \<le> card (undone h n)"
  by (rule card_mono [OF finite_undone]) (use assms in \<open>auto simp: undone_def\<close>)

lemma undone_mark:
  assumes "deref h a = Inr node" and "\<not> done' n (Output node)"
    and "done' n' = (done' n)(Output node := True)"
  shows "card (undone h n') < card (undone h n)"
proof (rule psubset_card_mono [OF finite_undone])
  from assms(1) have "Output node \<in> Output ` set h"
    by (auto simp: deref_def split: if_splits)
  with assms(2,3) show "undone h n' \<subset> undone h n"
    by (auto simp: undone_def)
qed

lemma emitNode_emitDeps_total: "All emitNode_emitDeps_dom"
proof
  fix x
  have "wf (inv_image (less_than <*lex*> less_than)
    (\<lambda>x. case x of
       Inl (E, h, a, n) \<Rightarrow> (card (undone h n), 0 :: nat)
     | Inr (E, h, ds, n) \<Rightarrow> (card (undone h n), Suc (length ds))))"
    by auto
  then show "emitNode_emitDeps_dom x"
  proof (induction x rule: wf_induct_rule)
    case (less x)
    show ?case
    proof (cases x)
      case (Inl t)
      obtain E h a n where t: "t = (E, h, a, n)" by (cases t)
      have step: "emitNode_emitDeps_dom (Inr (E, h, Deps b, ba))"
        if "deref h a = Inr b" and "\<not> done' n (Output b)"
          and "emitStatements E h a b (n\<lparr>done' := (done' n)(Output b := True)\<rparr>) = Inr ba"
        for b ba
      proof (rule less.IH)
        have "done' ba = (done' n)(Output b := True)"
          using emitStatements_done [OF that(3)] by simp
        from undone_mark [OF that(1) that(2) this]
        show "(Inr (E, h, Deps b, ba), x) \<in> inv_image (less_than <*lex*> less_than)
          (\<lambda>x. case x of
             Inl (E, h, a, n) \<Rightarrow> (card (undone h n), 0 :: nat)
           | Inr (E, h, ds, n) \<Rightarrow> (card (undone h n), Suc (length ds)))"
          by (simp add: Inl t)
      qed
      show ?thesis
        unfolding Inl t
        by (rule emitNode_emitDeps.domintros(1)) (rule step; assumption)+
    next
      case (Inr t)
      obtain E h ds n where t: "t = (E, h, ds, n)" by (cases t)
      show ?thesis
      proof (cases ds)
        case Nil
        show ?thesis unfolding Inr t Nil by (rule emitNode_emitDeps.domintros(2))
      next
        case (Cons d ds')
        have first: "emitNode_emitDeps_dom (Inl (E, h, d, n))"
          by (rule less.IH) (simp add: Inr t Cons)
        have rest: "emitNode_emitDeps_dom (Inr (E, h, ds', b))"
          if "emitNode E h d n = Inr b" for b
        proof (rule less.IH)
          have "card (undone h b) \<le> card (undone h n)"
            by (rule undone_mono) (rule emitNode_emitDeps_done_mono(1) [OF first that])
          then show "(Inr (E, h, ds', b), x) \<in> inv_image (less_than <*lex*> less_than)
            (\<lambda>x. case x of
               Inl (E, h, a, n) \<Rightarrow> (card (undone h n), 0 :: nat)
             | Inr (E, h, ds, n) \<Rightarrow> (card (undone h n), Suc (length ds)))"
            by (auto simp: Inr t Cons)
        qed
        show ?thesis
          unfolding Inr t Cons
          by (rule emitNode_emitDeps.domintros(3) [OF first]) (rule rest)
      qed
    qed
  qed
qed

termination emitNode
  by (rule emitNode_emitDeps_total)


declare emitNode.simps [simp del]

section \<open>generateShell, generateNinja and GenerateNinja\<close>

text \<open>The loop \<open>for name, export := range n.exports\<close> of \<open>generateShell\<close>; \<open>out\<close>
  is what has been written to ninja.sh.\<close>

fun exportLoop :: "env \<Rightarrow> (string \<times> bool) list \<Rightarrow> shell_line list \<Rightarrow> shell_line list" where
  "exportLoop E [] out = out"
| "exportLoop E ((name, export) # es) out =
     exportLoop E es
       (out @ [if export then ExportLine name (EvaluateVar E name) else UnsetLine name])"

definition generateShell :: "env \<Rightarrow> NinjaGenerator \<Rightarrow> error + shell_line list" where
  "generateShell E n =
     (if \<not> createOk E ''ninja.sh'' then Inl CreateFailed
      else
        (let shell = EvaluateVar E ''SHELL'';
             shell = (if shell = [] then ''/bin/sh'' else shell);
             out = [Shebang shell];
             out = exportLoop E (exports n) out;
             out = out @ [if gomaDir E = [] then ExecNinja else ExecNinjaJ300]
         in if \<not> chmodOk E then Inl ChmodFailed else Inr out))"

text \<open>\<open>generateNinja\<close>: \<open>n.f\<close> is the new, empty file; the loop over \<open>n.nodes\<close> calls
  \<open>emitNode\<close> on each root in turn, which is what \<^const>\<open>emitDeps\<close> does for a list
  of addresses.\<close>

definition generateNinja :: "env \<Rightarrow> store \<Rightarrow> NinjaGenerator \<Rightarrow> error + NinjaGenerator" where
  "generateNinja E h n =
     (if \<not> createOk E ''build.ninja'' then Inl CreateFailed
      else
        (let n = n\<lparr>f := []\<rparr>;
             n = fprintf n GeneratedBy;
             n = fprintf n EmptyLine;
             n = (if gomaDir E \<noteq> []
                  then fprintf (fprintf n PoolDecl) (PoolDepth (NumCPU E)) else n)
         in emitDeps E h (nodes n) n))"

text \<open>\<open>GenerateNinja\<close>: the two files, ninja.sh and build.ninja, of a run that does not
  panic.\<close>

definition GenerateNinja ::
  "env \<Rightarrow> store \<Rightarrow> DepGraph \<Rightarrow> error + (shell_line list \<times> ninja_line list)" where
  "GenerateNinja E h g =
     (let n = NewNinjaGenerator g in
      case generateShell E n of
        Inl err \<Rightarrow> Inl err
      | Inr sh \<Rightarrow>
          (case generateNinja E h n of
             Inl err \<Rightarrow> Inl err
           | Inr n \<Rightarrow> Inr (sh, f n)))"


section \<open>Vocabulary for the properties of the resolver\<close>

text \<open>The offsets at which \<open>sub\<close> occurs in \<open>s\<close>, in increasing order.\<close>

definition occurrences :: "string \<Rightarrow> string \<Rightarrow> nat list" where
  "occurrences sub s = filter (\<lambda>i. prefix sub (drop i s)) [0..<Suc (length s)]"

text \<open>The whitespace-delimited token at the start of a text: leading whitespace is
  skipped, and the token ends before the next whitespace byte.\<close>

definition tokenAt :: "string \<Rightarrow> string" where
  "tokenAt s = takeWhile (\<lambda>c. \<not> isWhitespace c) (dropWhile isWhitespace s)"

text \<open>The token that follows a flag found at offset \<open>i\<close>: both \<open>-MF\<close> with its
  leading space and \<open>-o\<close> with the spaces around it are four bytes long.\<close>

definition argAfter :: "string \<Rightarrow> nat \<Rightarrow> string" where
  "argAfter ss i = tokenAt (drop (i + 4) ss)"

text \<open>The offset at which that token starts.\<close>

definition argStart :: "string \<Rightarrow> nat \<Rightarrow> nat" where
  "argStart ss i = i + 4 + length (takeWhile isWhitespace (drop (i + 4) ss))"

text \<open>The command asks for dependency tracking: \<open>-MD\<close> or \<open>-MMD\<close> stands after a
  space and before a space or the end of the text.\<close>

definition requestsDeps :: "string \<Rightarrow> bool" where
  "requestsDeps ss = (Contains (ss @ '' '') '' -MD '' \<or> Contains (ss @ '' '') '' -MMD '')"

text \<open>The flag occurs again at or after the start of the token that follows its first
  occurrence.\<close>

definition repeatedAfterArg :: "string \<Rightarrow> string \<Rightarrow> bool" where
  "repeatedAfterArg flag ss =
     (case occurrences flag ss of
        [] \<Rightarrow> False
      | i # js \<Rightarrow> (\<exists>j \<in> set js. argStart ss i \<le> j))"

text \<open>One of the two later checks of \<open>getDepfile\<close> applies to the derived path
  \<open>r\<close>: the command text names \<open>r\<close> with the extension \<open>.P\<close>, or names an
  assembly source \<open>/<stem>.s\<close> for the stem of the base name of \<open>r\<close>.\<close>

definition postCheckApplies :: "string \<Rightarrow> string \<Rightarrow> bool" where
  "postCheckApplies ss r =
     (r \<noteq> [] \<and>
      (Contains ss (stripExt r @ ''.P'') \<or> Contains ss (''/'' @ stripExt (Base r) @ ''.s'')))"

text \<open>The flag occurs at two offsets or more.\<close>

definition occursTwice :: "string \<Rightarrow> string \<Rightarrow> bool" where
  "occursTwice flag ss = (2 \<le> length (occurrences flag ss))"

section \<open>Vocabulary for the abort of a run\<close>

text \<open>The generator as \<open>generateNinja\<close> has it when the loop over \<open>n.nodes\<close> starts:
  the new file holds the header lines, and the pool declaration when \<open>gomaDir\<close> is
  set.\<close>

definition ninjaHeader :: "env \<Rightarrow> NinjaGenerator \<Rightarrow> NinjaGenerator" where
  "ninjaHeader E n =
     (let n = n\<lparr>f := []\<rparr>;
          n = fprintf n GeneratedBy;
          n = fprintf n EmptyLine
      in if gomaDir E \<noteq> []
         then fprintf (fprintf n PoolDecl) (PoolDepth (NumCPU E)) else n)"

section \<open>Vocabulary for the properties of the chain builder\<close>

text \<open>The text of a command as it stands in the chain: normalised, and with the gomacc
  prefix when that applies.\<close>

definition cmdText :: "string \<Rightarrow> (string \<Rightarrow> bool) \<Rightarrow> runner \<Rightarrow> string" where
  "cmdText gd re r = fst (normalizeCmd gd re (cmd r))"

text \<open>What joins command \<open>i\<close> to the one before it: nothing for the first command,
  \<open>;\<close> between spaces after a command that ignores errors, \<open>&&\<close> between spaces
  otherwise.\<close>

definition joinText :: "runner list \<Rightarrow> nat \<Rightarrow> string" where
  "joinText rs i =
     (if i = 0 then [] else if ignoreError (rs ! (i - 1)) then '' ; '' else '' && '')"

text \<open>The joiner with the semicolon written as \<open>"; "\<close>, without the space before
  it.\<close>

definition claimedJoinText :: "runner list \<Rightarrow> nat \<Rightarrow> string" where
  "claimedJoinText rs i =
     (if i = 0 then [] else if ignoreError (rs ! (i - 1)) then ''; '' else '' && '')"

text \<open>What follows the last command when it ignores errors.\<close>

definition trueSuffix :: "runner list \<Rightarrow> nat \<Rightarrow> string" where
  "trueSuffix rs i = (if i = length rs - 1 \<and> ignoreError (rs ! i) then '' ; true'' else [])"

text \<open>A text in a sub-shell, or as it is.\<close>

definition subShell :: "bool \<Rightarrow> string \<Rightarrow> string" where
  "subShell w body = (if w then ''('' @ body @ '')'' else body)"

text \<open>What iteration \<open>i\<close> of the loop appends after the joiner.\<close>

definition unitText :: "string \<Rightarrow> (string \<Rightarrow> bool) \<Rightarrow> runner list \<Rightarrow> nat \<Rightarrow> string" where
  "unitText gd re rs i =
     subShell (\<not> ((i = 0 \<and> length rs = 1) \<or> hd (cmdText gd re (rs ! i)) = CHR ''(''))
       (cmdText gd re (rs ! i) @ trueSuffix rs i)"

section \<open>Vocabulary for the properties of the launcher script\<close>

text \<open>The variable that a line of ninja.sh exports or unsets.\<close>

fun lineVar :: "shell_line \<Rightarrow> string option" where
  "lineVar (ExportLine name v) = Some name"
| "lineVar (UnsetLine name) = Some name"
| "lineVar _ = None"


text \<open>The line that the loop of \<open>generateShell\<close> writes for one entry of
  \<open>n.exports\<close>.\<close>

definition exportLine :: "env \<Rightarrow> string \<times> bool \<Rightarrow> shell_line" where
  "exportLine E e =
     (if snd e then ExportLine (fst e) (EvaluateVar E (fst e)) else UnsetLine (fst e))"


text \<open>The lines of a text: each ends at a newline, and what follows the last newline
  is a line when it is not empty. \<open>acc\<close> is the part of the current line already
  read.\<close>

fun linesFrom :: "string \<Rightarrow> string \<Rightarrow> string list" where
  "linesFrom acc [] = (if acc = [] then [] else [acc])"
| "linesFrom acc (c # cs) =
     (if c = NEWLINE then acc # linesFrom [] cs else linesFrom (acc @ [c]) cs)"

definition textLines :: "string \<Rightarrow> string list" where
  "textLines s = linesFrom [] s"





section \<open>Vocabulary for the properties of the traversal\<close>

text \<open>The number that a decimal text stands for.\<close>

definition fromDecimal :: "string \<Rightarrow> nat" where
  "fromDecimal s = foldl (\<lambda>acc c. 10 * acc + (of_char c - 48)) 0 s"

text \<open>The output paths of the build statements of a file, and the names of its rule
  blocks, in the order of the file.\<close>

definition buildOutputs :: "ninja_line list \<Rightarrow> string list" where
  "buildOutputs out = concat (map (\<lambda>l. case l of BuildStmt p r d \<Rightarrow> [p] | _ \<Rightarrow> []) out)"

definition ruleNames :: "ninja_line list \<Rightarrow> string list" where
  "ruleNames out = concat (map (\<lambda>l. case l of RuleDecl r \<Rightarrow> [r] | _ \<Rightarrow> []) out)"

text \<open>The build statements of a file for the output path \<open>p\<close>.\<close>

definition buildsFor :: "string \<Rightarrow> ninja_line list \<Rightarrow> ninja_line list" where
  "buildsFor p out = filter (\<lambda>l. case l of BuildStmt q r d \<Rightarrow> q = p | _ \<Rightarrow> False) out"

text \<open>The rules that the build statements for \<open>p\<close> name, and the rule blocks of the
  file that declare one of them: the rule blocks of \<open>p\<close>.\<close>

definition rulesOf :: "string \<Rightarrow> ninja_line list \<Rightarrow> string list" where
  "rulesOf p out =
     concat (map (\<lambda>l. case l of BuildStmt q r d \<Rightarrow> if q = p then [r] else [] | _ \<Rightarrow> []) out)"

definition ruleBlocksFor :: "string \<Rightarrow> ninja_line list \<Rightarrow> ninja_line list" where
  "ruleBlocksFor p out =
     filter (\<lambda>l. case l of RuleDecl r \<Rightarrow> r \<in> set (rulesOf p out) | _ \<Rightarrow> False) out"

text \<open>What holds of the generator between two calls of \<open>emitNode\<close>: every output
  path with a build statement is done, no output path has two build statements, and the
  rule blocks are \<open>rule0\<close> up to the rule before \<open>ruleId\<close>.\<close>

definition emitted :: "NinjaGenerator \<Rightarrow> bool" where
  "emitted n \<longleftrightarrow>
     (\<forall>p \<in> set (buildOutputs (f n)). done' n p)
     \<and> distinct (buildOutputs (f n))
     \<and> ruleNames (f n) = map (\<lambda>i. ''rule'' @ decimal i) [0..<ruleId n]"

text \<open>The text of build.ninja, and what Ninja reads in it. \<open>ninjaLineText\<close> is the text
  of a line without its newline. A line of the text is a build statement for the output
  path \<open>p\<close> when it starts with \<open>build\<close> and \<open>p\<close> is what stands before the colon;
  the rule it names is the word after the colon; a line \<open>rule r\<close> is a rule block of
  \<open>p\<close> when a build statement for \<open>p\<close> names \<open>r\<close>.\<close>

fun ninjaLineText :: "ninja_line \<Rightarrow> string" where
  "ninjaLineText GeneratedBy = ''# Generated by kati''"
| "ninjaLineText EmptyLine = []"
| "ninjaLineText PoolDecl = ''pool local_pool''"
| "ninjaLineText (PoolDepth k) = '' depth = '' @ decimal k"
| "ninjaLineText (RuleDecl name) = ''rule '' @ name"
| "ninjaLineText Description = '' description = build $out''"
| "ninjaLineText (DepfileLine d) = '' depfile = '' @ d"
| "ninjaLineText RspfileLine = '' rspfile = $out.rsp''"
| "ninjaLineText (RspfileContent ss) = '' rspfile_content = '' @ ss"
| "ninjaLineText (CommandLine ss) = '' command = '' @ ss"
| "ninjaLineText (BuildStmt output rule dep) = ''build '' @ output @ '': '' @ rule @ dep"
| "ninjaLineText PoolLine = '' pool = local_pool''"

definition ninjaText :: "ninja_line list \<Rightarrow> string" where
  "ninjaText out = concat (map renderNinja out)"

definition textBuildsFor :: "string \<Rightarrow> string \<Rightarrow> string list" where
  "textBuildsFor p txt =
     filter (\<lambda>t. prefix ''build '' t \<and> takeWhile (\<lambda>c. c \<noteq> CHR '':'') (drop 6 t) = p)
       (textLines txt)"

definition textRulesOf :: "string \<Rightarrow> string \<Rightarrow> string list" where
  "textRulesOf p txt =
     map (\<lambda>t. takeWhile (\<lambda>c. c \<noteq> CHR '' '') (drop (length p + 8) t)) (textBuildsFor p txt)"

definition textRuleBlocksFor :: "string \<Rightarrow> string \<Rightarrow> string list" where
  "textRuleBlocksFor p txt =
     filter (\<lambda>t. prefix ''rule '' t \<and> drop 5 t \<in> set (textRulesOf p txt)) (textLines txt)"

text \<open>Paths, commands and depfile names are written as they are. The text of the file
  has the lines that were written when none of them holds a newline, and the output path
  of a build statement is what stands before the first colon when the path holds
  none.\<close>

definition ninjaClean :: "ninja_line list \<Rightarrow> bool" where
  "ninjaClean out \<longleftrightarrow>
     (\<forall>l \<in> set out. NEWLINE \<notin> set (ninjaLineText l)
        \<and> (case l of BuildStmt q r d \<Rightarrow> CHR '':'' \<notin> set q | _ \<Rightarrow> True))"

text \<open>What holds of every build statement that \<open>emitNode\<close> writes: the rule name has
  no space, and the dependency text is empty or starts with a space.\<close>

definition shapedBuilds :: "ninja_line list \<Rightarrow> bool" where
  "shapedBuilds out \<longleftrightarrow>
     (\<forall>l \<in> set out. case l of
        BuildStmt q r d \<Rightarrow> CHR '' '' \<notin> set r \<and> (d = [] \<or> hd d = CHR '' '')
      | _ \<Rightarrow> True)"


section \<open>A small graph for the examples\<close>

text \<open>A phony target \<open>all\<close> that depends on \<open>x.o\<close>, whose one command asks for
  dependency tracking and names no output.\<close>

definition exampleEnv :: env where
  "exampleEnv =
     \<lparr>gomaDir = [], NumCPU = 4, EvaluateVar = (\<lambda>_. []),
      createRunners =
        (\<lambda>a. if a = 1 then [\<lparr>cmd = ''gcc -MD -c x.c'', ignoreError = False\<rparr>] else []),
      createOk = (\<lambda>_. True), chmodOk = True\<rparr>"

definition exampleStore :: store where
  "exampleStore =
     [\<lparr>Output = ''all'', Cmds = [], Deps = [1], IsOrderOnly = False, IsPhony = True\<rparr>,
      \<lparr>Output = ''x.o'', Cmds = [''gcc -MD -c x.c''], Deps = [], IsOrderOnly = False,
       IsPhony = False\<rparr>]"

definition exampleGraph :: DepGraph where
  "exampleGraph = \<lparr>g_nodes = [0], g_exports = []\<rparr>"

text \<open>A command text of \<open>k\<close> bytes with nothing to normalise.\<close>

definition longText :: "nat \<Rightarrow> string" where
  "longText k = replicate k (CHR ''a'')"



text \<open>The number of characters of a text in UTF-8: its bytes without the continuation
  bytes \<open>0x80\<close> to \<open>0xBF\<close>.\<close>

definition utf8Length :: "string \<Rightarrow> nat" where
  "utf8Length s = length (filter (\<lambda>c. \<not> (128 \<le> (of_char c :: nat) \<and> (of_char c :: nat) < 192)) s)"

text \<open>A command text of \<open>k\<close> characters of two bytes each (\<open>0xC3 0xA9\<close>).\<close>

definition utf8Text :: "nat \<Rightarrow> string" where
  "utf8Text k = concat (replicate k [CHR 0xC3, CHR 0xA9])"

text \<open>A byte that no step of the normalisation and no flag of the resolver looks
  for.\<close>

definition plainByte :: "char \<Rightarrow> bool" where
  "plainByte c =
     (c \<notin> set [CHR '' '', TAB, NEWLINE, CHR ''#'', BSLASH, CHR '';'', CHR ''$'', CHR ''-'',
                CHR ''b''])"



text \<open>A diamond: \<open>all\<close> depends on \<open>a.o\<close> and \<open>b.o\<close>, and both depend on
  \<open>gen.h\<close>, order-only.\<close>

definition diamondStore :: store where
  "diamondStore =
     [\<lparr>Output = ''all'', Cmds = [], Deps = [1, 2], IsOrderOnly = False, IsPhony = True\<rparr>,
      \<lparr>Output = ''a.o'', Cmds = [''cc -c a.c -o a.o''], Deps = [3], IsOrderOnly = False,
       IsPhony = False\<rparr>,
      \<lparr>Output = ''b.o'', Cmds = [''cc -c b.c -o b.o''], Deps = [3], IsOrderOnly = False,
       IsPhony = False\<rparr>,
      \<lparr>Output = ''gen.h'', Cmds = [''./gen > gen.h''], Deps = [], IsOrderOnly = True,
       IsPhony = False\<rparr>]"

definition diamondEnv :: env where
  "diamondEnv =
     exampleEnv\<lparr>createRunners :=
       (\<lambda>a. if a = 1 then [\<lparr>cmd = ''cc -c a.c -o a.o'', ignoreError = False\<rparr>]
            else if a = 2 then [\<lparr>cmd = ''cc -c b.c -o b.o'', ignoreError = False\<rparr>]
            else if a = 3 then [\<lparr>cmd = ''./gen > gen.h'', ignoreError = False\<rparr>]
            else [])\<rparr>"

text \<open>A cycle: \<open>ping\<close> depends on \<open>pong\<close>, and \<open>pong\<close> on \<open>ping\<close> and on
  itself.\<close>

definition cycleStore :: store where
  "cycleStore =
     [\<lparr>Output = ''ping'', Cmds = [''touch ping''], Deps = [1], IsOrderOnly = False,
       IsPhony = False\<rparr>,
      \<lparr>Output = ''pong'', Cmds = [''touch pong''], Deps = [0, 1], IsOrderOnly = False,
       IsPhony = False\<rparr>]"

definition cycleEnv :: env where
  "cycleEnv =
     exampleEnv\<lparr>createRunners :=
       (\<lambda>a. if a = 0 then [\<lparr>cmd = ''touch ping'', ignoreError = False\<rparr>]
            else if a = 1 then [\<lparr>cmd = ''touch pong'', ignoreError = False\<rparr>]
            else [])\<rparr>"

section \<open>Properties of the comment stripper\<close>

lemma lexstep_ctxOf_quoted:
  assumes "quote \<in> {SQUOTE, DQUOTE, BQUOTE}"
  shows "lexstep (ctxOf escape quote) c =
     ctxOf (if escape then False else c = BSLASH)
           (if quote = c \<and> (quote = SQUOTE \<or> \<not> escape) then NUL else quote)"
  using assms by (cases escape) auto

lemma lexstep_ctxOf_plain:
  "lexstep (ctxOf False NUL) c =
     ctxOf (c = BSLASH) (if c = SQUOTE \<or> c = DQUOTE \<or> c = BQUOTE then c else NUL)"
  by auto

lemma stripLoop_commentStart:
  assumes "quote \<in> {NUL, SQUOTE, DQUOTE, BQUOTE}"
  shows "stripLoop s i escape quote cs =
         (case commentStart (ctxOf escape quote) cs of
            None \<Rightarrow> s | Some k \<Rightarrow> take (i + k) s)"
  using assms
proof (induction cs arbitrary: i escape quote)
  case Nil
  then show ?case by simp
next
  case (Cons c cs)
  have step: "\<And>e q. q \<in> {NUL, SQUOTE, DQUOTE, BQUOTE} \<Longrightarrow>
      stripLoop s (Suc i) e q cs =
      (case commentStart (ctxOf e q) cs of None \<Rightarrow> s | Some k \<Rightarrow> take (Suc i + k) s)"
    by (rule Cons.IH)
  show ?case
  proof (cases "quote = NUL")
    case quoted: False
    with Cons.prems have q: "quote \<in> {SQUOTE, DQUOTE, BQUOTE}" by simp
    let ?e = "if escape then False else c = BSLASH"
    let ?q = "if quote = c \<and> (quote = SQUOTE \<or> \<not> escape) then NUL else quote"
    have q': "?q \<in> {NUL, SQUOTE, DQUOTE, BQUOTE}" using q by auto
    have notplain: "ctxOf escape quote \<noteq> Plain" using q by auto
    have "stripLoop s i escape quote (c # cs) = stripLoop s (Suc i) ?e ?q cs"
      using quoted by simp
    also have "\<dots> = (case commentStart (ctxOf ?e ?q) cs of
                      None \<Rightarrow> s | Some k \<Rightarrow> take (Suc i + k) s)"
      by (rule step [OF q'])
    also have "\<dots> = (case commentStart (ctxOf escape quote) (c # cs) of
                      None \<Rightarrow> s | Some k \<Rightarrow> take (i + k) s)"
      using notplain
      by (simp only: commentStart.simps lexstep_ctxOf_quoted [OF q, symmetric])
         (simp split: option.splits)
    finally show ?thesis .
  next
    case plain: True
    show ?thesis
    proof (cases escape)
      case True
      have "stripLoop s i escape quote (c # cs) = stripLoop s (Suc i) False NUL cs"
        using plain True by simp
      also have "\<dots> = (case commentStart (ctxOf False NUL) cs of
                      None \<Rightarrow> s | Some k \<Rightarrow> take (Suc i + k) s)"
        by (rule step) simp
      finally show ?thesis
        using plain True by (simp split: option.splits)
    next
      case False
      show ?thesis
      proof (cases "c = CHR ''#''")
        case True
        then show ?thesis using plain False by simp
      next
        case nohash: False
        let ?q = "if c = SQUOTE \<or> c = DQUOTE \<or> c = BQUOTE then c else NUL"
        have q': "?q \<in> {NUL, SQUOTE, DQUOTE, BQUOTE}" by auto
        have "stripLoop s i escape quote (c # cs) = stripLoop s (Suc i) (c = BSLASH) ?q cs"
          using plain False nohash by simp
        also have "\<dots> = (case commentStart (ctxOf (c = BSLASH) ?q) cs of
                      None \<Rightarrow> s | Some k \<Rightarrow> take (Suc i + k) s)"
          by (rule step [OF q'])
        also have "\<dots> = (case commentStart (ctxOf escape quote) (c # cs) of
                      None \<Rightarrow> s | Some k \<Rightarrow> take (i + k) s)"
          using plain False nohash
          by (simp only: commentStart.simps lexstep_ctxOf_plain [symmetric])
             (simp split: option.splits)
        finally show ?thesis .
      qed
    qed
  qed
qed

lemma IndexByte_None_iff: "IndexByte s b = None \<longleftrightarrow> b \<notin> set s"
  by (induction s) auto

lemma commentStart_None: "CHR ''#'' \<notin> set s \<Longrightarrow> commentStart x s = None"
  by (induction s arbitrary: x) auto

lemma stripLoop_start:
  "stripLoop s 0 False NUL s = (case commentStart Plain s of None \<Rightarrow> s | Some k \<Rightarrow> take k s)"
  using stripLoop_commentStart [of NUL s 0 False s] by (simp cong: option.case_cong)

lemma stripShellComment_stripSpec: "stripShellComment s = stripSpec s"
  by (simp add: stripShellComment_def stripSpec_def IndexByte_None_iff commentStart_None
      stripLoop_start)

lemma commentStart_InSingle_append:
  "SQUOTE \<notin> set body \<Longrightarrow>
   commentStart InSingle (body @ t) =
     map_option (\<lambda>k. length body + k) (commentStart InSingle t)"
proof (induction body)
  case Nil
  show ?case by (cases "commentStart InSingle t") simp_all
next
  case (Cons a body)
  then have "a \<noteq> SQUOTE" and "SQUOTE \<notin> set body" by auto
  with Cons.IH show ?case by (cases "commentStart InSingle t") simp_all
qed

lemma stripSpec_single_quote_backslash:
  assumes "SQUOTE \<notin> set body"
  shows "stripSpec (SQUOTE # body @ [BSLASH, SQUOTE, CHR ''#''] @ rest) =
         SQUOTE # body @ [BSLASH, SQUOTE]"
proof -
  have "commentStart InSingle ([BSLASH, SQUOTE, CHR ''#''] @ rest) = Some 2"
    by simp
  then have "commentStart InSingle (body @ [BSLASH, SQUOTE, CHR ''#''] @ rest) =
        Some (length body + 2)"
    using assms by (simp add: commentStart_InSingle_append del: commentStart.simps)
  then have "commentStart Plain (SQUOTE # body @ [BSLASH, SQUOTE, CHR ''#''] @ rest) =
        Some (Suc (length body + 2))"
    by simp
  then show ?thesis
    by (simp add: stripSpec_def)
qed


text \<open>
  Claim C3. For every string \<open>s\<close>, \<open>stripShellComment s\<close> is \<open>s\<close> cut at the first
  \<open>#\<close> that stands outside single quotes, double quotes and backticks and is not
  escaped by a backslash, and is \<open>s\<close> itself when there is no such \<open>#\<close>. Inside
  single quotes a backslash does not escape the closing quote: in \<open>'body\'#rest\<close> the
  quote ends at the second quote character and the comment starts right after it. The
  text \<open>echo 'a#b'\<close> is returned unchanged and \<open>echo a #comment\<close> becomes
  \<open>echo a \<close> (with the trailing space).
\<close>

theorem stripShellComment_contract:
  "stripShellComment s =
     (case commentStart Plain s of None \<Rightarrow> s | Some i \<Rightarrow> take i s)
   \<and> (SQUOTE \<notin> set body \<longrightarrow>
        stripShellComment (SQUOTE # body @ [BSLASH, SQUOTE, CHR ''#''] @ rest) =
        SQUOTE # body @ [BSLASH, SQUOTE])
   \<and> stripShellComment (''echo '' @ [SQUOTE] @ ''a#b'' @ [SQUOTE]) =
        ''echo '' @ [SQUOTE] @ ''a#b'' @ [SQUOTE]
   \<and> stripShellComment ''echo a #comment'' = ''echo a ''"
proof (intro conjI impI)
  show "stripShellComment s =
     (case commentStart Plain s of None \<Rightarrow> s | Some i \<Rightarrow> take i s)"
    by (simp add: stripShellComment_stripSpec stripSpec_def)
  show "stripShellComment (SQUOTE # body @ [BSLASH, SQUOTE, CHR ''#''] @ rest) =
        SQUOTE # body @ [BSLASH, SQUOTE]" if "SQUOTE \<notin> set body"
    using stripSpec_single_quote_backslash [OF that]
    by (simp only: stripShellComment_stripSpec)
  show "stripShellComment (''echo '' @ [SQUOTE] @ ''a#b'' @ [SQUOTE]) =
        ''echo '' @ [SQUOTE] @ ''a#b'' @ [SQUOTE]"
    by (simp add: stripShellComment_def)
  show "stripShellComment ''echo a #comment'' = ''echo a ''"
    by (simp add: stripShellComment_def)
qed

theorem stripShellComment_contract_witness:
  "stripShellComment (''cc '' @ [DQUOTE] @ ''a#'' @ [BSLASH, DQUOTE] @ ''b'' @ [DQUOTE] @ '' x # y'') =
     ''cc '' @ [DQUOTE] @ ''a#'' @ [BSLASH, DQUOTE] @ ''b'' @ [DQUOTE] @ '' x ''
   \<and> SQUOTE \<notin> set ''a#b''
   \<and> stripShellComment (SQUOTE # ''a#b'' @ [BSLASH, SQUOTE, CHR ''#''] @ '' tail'') =
       SQUOTE # ''a#b'' @ [BSLASH, SQUOTE]"
proof -
  have q: "SQUOTE \<notin> set ''a#b''" by simp
  note c = stripShellComment_contract
    [of "''cc '' @ [DQUOTE] @ ''a#'' @ [BSLASH, DQUOTE] @ ''b'' @ [DQUOTE] @ '' x # y''"
        "''a#b''" "'' tail''"]
  from c have "stripShellComment (''cc '' @ [DQUOTE] @ ''a#'' @ [BSLASH, DQUOTE] @ ''b'' @ [DQUOTE] @ '' x # y'') =
     ''cc '' @ [DQUOTE] @ ''a#'' @ [BSLASH, DQUOTE] @ ''b'' @ [DQUOTE] @ '' x ''"
    by simp
  moreover from c q have "stripShellComment (SQUOTE # ''a#b'' @ [BSLASH, SQUOTE, CHR ''#''] @ '' tail'') =
       SQUOTE # ''a#b'' @ [BSLASH, SQUOTE]"
    by blast
  ultimately show ?thesis using q by blast
qed


section \<open>Properties of getDepfile\<close>

lemma Index_Some_D:
  "Index s sub = Some j \<Longrightarrow>
     j \<le> length s \<and> prefix sub (drop j s) \<and> (\<forall>k<j. \<not> prefix sub (drop k s))"
proof (induction s arbitrary: j)
  case Nil
  then show ?case by (simp split: if_splits)
next
  case (Cons c s)
  show ?case
  proof (cases "prefix sub (c # s)")
    case True
    with Cons.prems show ?thesis by simp
  next
    case False
    with Cons.prems obtain j' where j': "Index s sub = Some j'" "j = Suc j'"
      by auto
    from Cons.IH [OF j'(1)] False j'(2) show ?thesis
      by (auto simp: less_Suc_eq_0_disj)
  qed
qed

lemma Index_None_D: "Index s sub = None \<Longrightarrow> \<not> prefix sub (drop k s)"
proof (induction s arbitrary: k)
  case Nil
  then show ?case by (simp split: if_splits)
next
  case (Cons c s)
  then show ?case by (cases k) (auto split: if_splits)
qed

lemma Index_None_iff: "Index s sub = None \<longleftrightarrow> (\<forall>k. \<not> prefix sub (drop k s))"
proof
  assume "Index s sub = None"
  then show "\<forall>k. \<not> prefix sub (drop k s)" by (simp add: Index_None_D)
next
  assume a: "\<forall>k. \<not> prefix sub (drop k s)"
  show "Index s sub = None"
  proof (rule ccontr)
    assume "Index s sub \<noteq> None"
    then obtain j where "Index s sub = Some j" by auto
    from Index_Some_D [OF this] a show False by simp
  qed
qed

lemma set_occurrences:
  "set (occurrences sub s) = {i. i \<le> length s \<and> prefix sub (drop i s)}"
  by (auto simp: occurrences_def simp del: upt_Suc)

lemma occurrences_Nil_iff: "occurrences sub s = [] \<longleftrightarrow> Index s sub = None"
proof -
  have "(\<forall>k. \<not> prefix sub (drop k s)) \<longleftrightarrow> (\<forall>k\<le>length s. \<not> prefix sub (drop k s))"
  proof (intro iffI allI impI)
    fix k assume a: "\<forall>k\<le>length s. \<not> prefix sub (drop k s)"
    show "\<not> prefix sub (drop k s)"
    proof (cases "k \<le> length s")
      case True with a show ?thesis by simp
    next
      case False
      then have "drop k s = drop (length s) s" by simp
      with a show ?thesis by (metis order_refl)
    qed
  qed simp
  moreover have "occurrences sub s = [] \<longleftrightarrow> set (occurrences sub s) = {}"
    by simp
  ultimately show ?thesis
    unfolding Index_None_iff set_occurrences by blast
qed

lemma sorted_occurrences: "sorted (occurrences sub s)" "distinct (occurrences sub s)"
  by (simp_all add: occurrences_def sorted_wrt_filter del: upt_Suc)

lemma occurrences_Cons_Index:
  assumes "occurrences sub s = i # js"
  shows "Index s sub = Some i"
proof -
  from assms have "Index s sub \<noteq> None"
    using occurrences_Nil_iff [of sub s] by simp
  then obtain j where j: "Index s sub = Some j" by auto
  from Index_Some_D [OF j] have "j \<in> set (occurrences sub s)" and
    least: "\<forall>k<j. \<not> prefix sub (drop k s)"
    by (simp_all add: set_occurrences)
  moreover have "i \<in> set (occurrences sub s)" using assms by simp
  then have "prefix sub (drop i s)" by (simp add: set_occurrences)
  with least have "j \<le> i" by (meson not_le)
  moreover have "i \<le> j"
    using sorted_occurrences(1) [of sub s] \<open>j \<in> set (occurrences sub s)\<close> assms
    by auto
  ultimately show ?thesis using j by simp
qed

lemma Index_Some_occurrences:
  assumes "Index s sub = Some i"
  shows "\<exists>js. occurrences sub s = i # js"
proof -
  from assms have "occurrences sub s \<noteq> []"
    using occurrences_Nil_iff [of sub s] by simp
  then obtain j js where jm: "occurrences sub s = j # js"
    by (cases "occurrences sub s") auto
  from occurrences_Cons_Index [OF jm] assms have "j = i" by simp
  with jm show ?thesis by simp
qed

lemma occurrences_more_greater:
  assumes "occurrences sub s = i # js" and "j \<in> set js"
  shows "i < j"
  using sorted_occurrences [of sub s] assms by (auto simp: le_less)

lemma trimLeftSpace_drop:
  "trimLeftSpace (drop (i + 4) ss) = drop (argStart ss i) ss"
  by (simp add: trimLeftSpace_def argStart_def dropWhile_eq_drop add.commute)

lemma Index_drop_iff:
  assumes "sub \<noteq> []"
  shows "Index (drop k s) sub \<noteq> None \<longleftrightarrow> (\<exists>j \<in> set (occurrences sub s). k \<le> j)"
proof
  assume "Index (drop k s) sub \<noteq> None"
  then obtain j where "Index (drop k s) sub = Some j" by auto
  from Index_Some_D [OF this] have p: "prefix sub (drop (k + j) s)"
    by (simp add: add.commute)
  with assms have "drop (k + j) s \<noteq> []" by auto
  then have "k + j \<le> length s" by simp
  with p have "k + j \<in> set (occurrences sub s)" by (simp add: set_occurrences)
  then show "\<exists>j \<in> set (occurrences sub s). k \<le> j" by (rule bexI [rotated]) simp
next
  assume "\<exists>j \<in> set (occurrences sub s). k \<le> j"
  then obtain j where j: "prefix sub (drop j s)" "k \<le> j"
    by (auto simp: set_occurrences)
  then have "prefix sub (drop (j - k) (drop k s))" by simp
  then show "Index (drop k s) sub \<noteq> None"
    using Index_None_D [of "drop k s" sub "j - k"] by blast
qed

lemma cutAtSpace_takeWhile: "cutAtSpace s = takeWhile (\<lambda>c. \<not> isWhitespace c) s"
proof -
  have "(case IndexAny s cs of None \<Rightarrow> s | Some e \<Rightarrow> take e s) =
        takeWhile (\<lambda>c. c \<notin> set cs) s" for cs
    by (induction s) (auto split: option.splits)
  then show ?thesis
    by (simp add: cutAtSpace_def isWhitespace_def)
qed

lemma flag_argument:
  assumes "sub \<noteq> []" and "occurrences sub ss = i # js"
  shows "Index ss sub = Some i"
    and "Index (trimLeftSpace (drop (i + 4) ss)) sub \<noteq> None \<longleftrightarrow>
         (\<exists>j \<in> set js. argStart ss i \<le> j)"
    and "cutAtSpace (trimLeftSpace (drop (i + 4) ss)) = argAfter ss i"
proof -
  show "Index ss sub = Some i"
    by (rule occurrences_Cons_Index [OF assms(2)])
  have "i < argStart ss i" by (simp add: argStart_def)
  then have "(\<exists>j \<in> set (i # js). argStart ss i \<le> j) \<longleftrightarrow> (\<exists>j \<in> set js. argStart ss i \<le> j)"
    by auto
  then show "Index (trimLeftSpace (drop (i + 4) ss)) sub \<noteq> None \<longleftrightarrow>
         (\<exists>j \<in> set js. argStart ss i \<le> j)"
    unfolding trimLeftSpace_drop Index_drop_iff [OF assms(1)] assms(2) .
  show "cutAtSpace (trimLeftSpace (drop (i + 4) ss)) = argAfter ss i"
    by (simp add: cutAtSpace_takeWhile argAfter_def tokenAt_def trimLeftSpace_def)
qed

lemma getDepfileImpl_not_requested:
  "\<not> requestsDeps ss \<Longrightarrow> getDepfileImpl ss = Inr []"
  by (simp add: getDepfileImpl_def requestsDeps_def)

lemma getDepfileImpl_MF:
  assumes "requestsDeps ss" and "occurrences '' -MF '' ss = i # js"
  shows "getDepfileImpl ss =
         (if \<exists>j \<in> set js. argStart ss i \<le> j then Inl (MultipleCandidates ss)
          else Inr (argAfter ss i))"
proof -
  have ne: "'' -MF '' \<noteq> []" by simp
  note fa = flag_argument [OF ne assms(2)]
  from assms(1) have rq: "\<not> (\<not> Contains (ss @ '' '') '' -MD '' \<and> \<not> Contains (ss @ '' '') '' -MMD '')"
    by (simp add: requestsDeps_def)
  show ?thesis
    unfolding getDepfileImpl_def Let_def
    by (simp only: rq if_False fa(1) option.case fa(2)[symmetric] fa(3))
qed

lemma getDepfileImpl_o:
  assumes "requestsDeps ss" and "occurrences '' -MF '' ss = []"
    and "occurrences '' -o '' ss = i # js"
  shows "getDepfileImpl ss =
         (if \<exists>j \<in> set js. argStart ss i \<le> j then Inl (MultipleCandidates ss)
          else Inr (stripExt (argAfter ss i) @ ''.d''))"
proof -
  have ne: "'' -o '' \<noteq> []" by simp
  note fa = flag_argument [OF ne assms(3)]
  from assms(1) have rq: "\<not> (\<not> Contains (ss @ '' '') '' -MD '' \<and> \<not> Contains (ss @ '' '') '' -MMD '')"
    by (simp add: requestsDeps_def)
  from assms(2) have mf: "Index ss '' -MF '' = None"
    by (simp add: occurrences_Nil_iff)
  show ?thesis
    unfolding getDepfileImpl_def Let_def
    by (simp only: rq if_False mf fa(1) option.case fa(2)[symmetric] fa(3))
qed

lemma getDepfileImpl_none:
  assumes "requestsDeps ss" and "occurrences '' -MF '' ss = []"
    and "occurrences '' -o '' ss = []"
  shows "getDepfileImpl ss = Inl (CannotFindDepfile ss)"
proof -
  from assms(1) have rq: "\<not> (\<not> Contains (ss @ '' '') '' -MD '' \<and> \<not> Contains (ss @ '' '') '' -MMD '')"
    by (simp add: requestsDeps_def)
  from assms(2,3) have "Index ss '' -MF '' = None" "Index ss '' -o '' = None"
    by (simp_all add: occurrences_Nil_iff)
  then show ?thesis
    unfolding getDepfileImpl_def Let_def
    by (simp only: rq if_False option.case)
qed

lemma getDepfile_no_postCheck:
  assumes "\<not> Contains ss ''bin/llvm-rs-cc ''" and "getDepfileImpl ss = Inr r"
    and "\<not> postCheckApplies ss r"
  shows "getDepfile ss = Inr r"
  using assms by (auto simp: getDepfile_def postCheckApplies_def Let_def)

lemma getDepfile_Inl_iff:
  "getDepfile ss = Inl err \<longleftrightarrow>
     \<not> Contains ss ''bin/llvm-rs-cc '' \<and> getDepfileImpl ss = Inl err"
  by (auto simp: getDepfile_def Let_def split: sum.splits)

text \<open>
  Claim C4, as the code has it. A command text that names \<open>bin/llvm-rs-cc\<close> resolves
  to the empty path with no error whatever its flags are, and so does a command text
  with neither \<open>-MD\<close> nor \<open>-MMD\<close>. Otherwise, when \<open>-MF\<close> occurs exactly once the
  result is the whitespace-delimited token that follows it, and when \<open>-MF\<close> does not
  occur and \<open>-o\<close> occurs exactly once the result is the token after \<open>-o\<close> with its
  extension replaced by \<open>.d\<close>; both provided that neither of the later checks of
  \<open>getDepfile\<close> (the \<open>.P\<close> file, the assembly source) applies to that result. The
  three concrete commands of the claim resolve as it says.
\<close>

theorem getDepfile_resolution:
  "(Contains ss ''bin/llvm-rs-cc '' \<longrightarrow> getDepfile ss = Inr [])
   \<and> (\<not> requestsDeps ss \<longrightarrow> getDepfile ss = Inr [])
   \<and> (\<not> Contains ss ''bin/llvm-rs-cc '' \<and> requestsDeps ss
        \<and> occurrences '' -MF '' ss = [i]
        \<and> \<not> postCheckApplies ss (argAfter ss i)
        \<longrightarrow> getDepfile ss = Inr (argAfter ss i))
   \<and> (\<not> Contains ss ''bin/llvm-rs-cc '' \<and> requestsDeps ss
        \<and> occurrences '' -MF '' ss = [] \<and> occurrences '' -o '' ss = [k]
        \<and> \<not> postCheckApplies ss (stripExt (argAfter ss k) @ ''.d'')
        \<longrightarrow> getDepfile ss = Inr (stripExt (argAfter ss k) @ ''.d''))
   \<and> getDepfile ''gcc -c foo.c -o foo.o -MD'' = Inr ''foo.d''
   \<and> getDepfile ''gcc -c foo.c -o foo.o -MD -MF bar.d'' = Inr ''bar.d''
   \<and> getDepfile ''gcc -c foo.c -o foo.o'' = Inr []"
proof (intro conjI impI)
  show "getDepfile ss = Inr []" if "Contains ss ''bin/llvm-rs-cc ''"
    using that by (simp add: getDepfile_def)
  show "getDepfile ss = Inr []" if "\<not> requestsDeps ss"
    using that by (simp add: getDepfile_def getDepfileImpl_not_requested)
  show "getDepfile ss = Inr (argAfter ss i)"
    if "\<not> Contains ss ''bin/llvm-rs-cc '' \<and> requestsDeps ss
        \<and> occurrences '' -MF '' ss = [i] \<and> \<not> postCheckApplies ss (argAfter ss i)"
  proof -
    from that have "getDepfileImpl ss = Inr (argAfter ss i)"
      by (simp add: getDepfileImpl_MF)
    with that show ?thesis by (simp add: getDepfile_no_postCheck)
  qed
  show "getDepfile ss = Inr (stripExt (argAfter ss k) @ ''.d'')"
    if "\<not> Contains ss ''bin/llvm-rs-cc '' \<and> requestsDeps ss
        \<and> occurrences '' -MF '' ss = [] \<and> occurrences '' -o '' ss = [k]
        \<and> \<not> postCheckApplies ss (stripExt (argAfter ss k) @ ''.d'')"
  proof -
    from that have "getDepfileImpl ss = Inr (stripExt (argAfter ss k) @ ''.d'')"
      by (simp add: getDepfileImpl_o)
    with that show ?thesis by (simp add: getDepfile_no_postCheck)
  qed
  show "getDepfile ''gcc -c foo.c -o foo.o -MD'' = Inr ''foo.d''"
    by code_simp
  show "getDepfile ''gcc -c foo.c -o foo.o -MD -MF bar.d'' = Inr ''bar.d''"
    by code_simp
  show "getDepfile ''gcc -c foo.c -o foo.o'' = Inr []"
    by code_simp
qed

theorem getDepfile_resolution_witness:
  "getDepfile ''bin/llvm-rs-cc -MD -o x'' = Inr []
   \<and> getDepfile ''cc -o a.o a.c'' = Inr []
   \<and> getDepfile ''cc -MMD -c a.c -MF out/a.dep -o a.o'' = Inr ''out/a.dep''
   \<and> getDepfile ''cc -MD -c a.c -o out/a.o'' = Inr ''out/a.d''"
proof -
  let ?a = "''bin/llvm-rs-cc -MD -o x''"
  let ?b = "''cc -o a.o a.c''"
  let ?c = "''cc -MMD -c a.c -MF out/a.dep -o a.o''"
  let ?d = "''cc -MD -c a.c -o out/a.o''"
  have a: "Contains ?a ''bin/llvm-rs-cc ''" by code_simp
  have b: "\<not> requestsDeps ?b" by code_simp
  have c: "\<not> Contains ?c ''bin/llvm-rs-cc '' \<and> requestsDeps ?c
        \<and> occurrences '' -MF '' ?c = [14]
        \<and> \<not> postCheckApplies ?c (argAfter ?c 14)"
    by code_simp
  have c': "argAfter ?c 14 = ''out/a.dep''" by code_simp
  have d: "\<not> Contains ?d ''bin/llvm-rs-cc '' \<and> requestsDeps ?d
        \<and> occurrences '' -MF '' ?d = [] \<and> occurrences '' -o '' ?d = [13]
        \<and> \<not> postCheckApplies ?d (stripExt (argAfter ?d 13) @ ''.d'')"
    by code_simp
  have d': "stripExt (argAfter ?d 13) @ ''.d'' = ''out/a.d''" by code_simp
  from a have "getDepfile ?a = Inr []"
    using getDepfile_resolution [of ?a 0 0] by blast
  moreover from b have "getDepfile ?b = Inr []"
    using getDepfile_resolution [of ?b 0 0] by blast
  moreover from c have "getDepfile ?c = Inr (argAfter ?c 14)"
    using getDepfile_resolution [of ?c 14 0] by blast
  moreover from d have "getDepfile ?d = Inr (stripExt (argAfter ?d 13) @ ''.d'')"
    using getDepfile_resolution [of ?d 0 13] by blast
  ultimately show ?thesis
    by (simp only: c' d')
qed

text \<open>
  Without the proviso the claim fails: in the command below \<open>-MF\<close> occurs once and is
  followed by \<open>bar.d\<close>, but the text also names \<open>bar.P\<close>, and that is the result.
\<close>

theorem getDepfile_token_counterexample:
  "\<not> Contains ''gcc -c foo.c -o foo.o -MD -MF bar.d && cp bar.d bar.P'' ''bin/llvm-rs-cc ''
   \<and> requestsDeps ''gcc -c foo.c -o foo.o -MD -MF bar.d && cp bar.d bar.P''
   \<and> occurrences '' -MF '' ''gcc -c foo.c -o foo.o -MD -MF bar.d && cp bar.d bar.P'' = [25]
   \<and> argAfter ''gcc -c foo.c -o foo.o -MD -MF bar.d && cp bar.d bar.P'' 25 = ''bar.d''
   \<and> getDepfile ''gcc -c foo.c -o foo.o -MD -MF bar.d && cp bar.d bar.P'' = Inr ''bar.P''"
  by code_simp

text \<open>
  Claim C6, as the code has it. When the path derived from the flags is not empty, the
  command text does not name that path with the extension \<open>.P\<close>, and the command text
  contains \<open>/<stem>.s\<close> for the stem of the path's base name, the resolver returns the
  empty path and no error. So it does for \<open>gcc -c src/foo.s -o foo.o -MD\<close>.
\<close>

theorem getDepfile_assembly:
  "(\<not> Contains ss ''bin/llvm-rs-cc '' \<and> getDepfileImpl ss = Inr r \<and> r \<noteq> []
      \<and> \<not> Contains ss (stripExt r @ ''.P'')
      \<and> Contains ss (''/'' @ stripExt (Base r) @ ''.s'')
      \<longrightarrow> getDepfile ss = Inr [])
   \<and> getDepfile ''gcc -c src/foo.s -o foo.o -MD'' = Inr []"
proof (intro conjI impI)
  show "getDepfile ss = Inr []"
    if "\<not> Contains ss ''bin/llvm-rs-cc '' \<and> getDepfileImpl ss = Inr r \<and> r \<noteq> []
      \<and> \<not> Contains ss (stripExt r @ ''.P'')
      \<and> Contains ss (''/'' @ stripExt (Base r) @ ''.s'')"
    using that by (simp add: getDepfile_def)
  show "getDepfile ''gcc -c src/foo.s -o foo.o -MD'' = Inr []"
    by code_simp
qed

theorem getDepfile_assembly_witness:
  "getDepfileImpl ''as -MD -o obj/x.o arch/x.s'' = Inr ''obj/x.d''
   \<and> Contains ''as -MD -o obj/x.o arch/x.s'' ''/x.s''
   \<and> getDepfile ''as -MD -o obj/x.o arch/x.s'' = Inr []"
proof -
  let ?s = "''as -MD -o obj/x.o arch/x.s''"
  have h: "\<not> Contains ?s ''bin/llvm-rs-cc '' \<and> getDepfileImpl ?s = Inr ''obj/x.d''
      \<and> ''obj/x.d'' \<noteq> []
      \<and> \<not> Contains ?s (stripExt ''obj/x.d'' @ ''.P'')
      \<and> Contains ?s (''/'' @ stripExt (Base ''obj/x.d'') @ ''.s'')"
    by code_simp
  have c: "Contains ?s ''/x.s''" by code_simp
  from h have "getDepfile ?s = Inr []"
    using getDepfile_assembly [of ?s "''obj/x.d''"] by blast
  with h c show ?thesis by blast
qed

text \<open>
  The command of the claim itself has no \<open>/\<close> before \<open>foo.s\<close>: the text searched
  for, \<open>/foo.s\<close>, does not occur in it, and the resolver returns \<open>foo.d\<close>.
\<close>

theorem getDepfile_assembly_counterexample:
  "getDepfileImpl ''gcc -c foo.s -o foo.o -MD'' = Inr ''foo.d''
   \<and> stripExt (Base ''foo.d'') = ''foo''
   \<and> getDepfile ''gcc -c foo.s -o foo.o -MD'' = Inr ''foo.d''"
  by code_simp

lemma getDepfile_isl_iff:
  "isl (getDepfile ss) \<longleftrightarrow> \<not> Contains ss ''bin/llvm-rs-cc '' \<and> isl (getDepfileImpl ss)"
  by (auto simp: getDepfile_def Let_def split: sum.splits)

lemma getDepfileImpl_errors:
  assumes "requestsDeps ss"
  shows "getDepfileImpl ss = Inl (MultipleCandidates ss) \<longleftrightarrow>
           repeatedAfterArg '' -MF '' ss
           \<or> (occurrences '' -MF '' ss = [] \<and> repeatedAfterArg '' -o '' ss)"
    and "getDepfileImpl ss = Inl (CannotFindDepfile ss) \<longleftrightarrow>
           occurrences '' -MF '' ss = [] \<and> occurrences '' -o '' ss = []"
    and "isl (getDepfileImpl ss) \<longleftrightarrow>
           repeatedAfterArg '' -MF '' ss
           \<or> (occurrences '' -MF '' ss = [] \<and> occurrences '' -o '' ss = [])
           \<or> (occurrences '' -MF '' ss = [] \<and> repeatedAfterArg '' -o '' ss)"
proof -
  consider (mf) i js where "occurrences '' -MF '' ss = i # js"
    | (o) i js where "occurrences '' -MF '' ss = []" "occurrences '' -o '' ss = i # js"
    | (none) "occurrences '' -MF '' ss = []" "occurrences '' -o '' ss = []"
    by (cases "occurrences '' -MF '' ss"; cases "occurrences '' -o '' ss") auto
  then have "(getDepfileImpl ss = Inl (MultipleCandidates ss) \<longleftrightarrow>
           repeatedAfterArg '' -MF '' ss
           \<or> (occurrences '' -MF '' ss = [] \<and> repeatedAfterArg '' -o '' ss))
     \<and> (getDepfileImpl ss = Inl (CannotFindDepfile ss) \<longleftrightarrow>
           occurrences '' -MF '' ss = [] \<and> occurrences '' -o '' ss = [])
     \<and> (isl (getDepfileImpl ss) \<longleftrightarrow>
           repeatedAfterArg '' -MF '' ss
           \<or> (occurrences '' -MF '' ss = [] \<and> occurrences '' -o '' ss = [])
           \<or> (occurrences '' -MF '' ss = [] \<and> repeatedAfterArg '' -o '' ss))"
  proof cases
    case mf
    then show ?thesis
      by (simp add: getDepfileImpl_MF [OF assms mf] repeatedAfterArg_def)
  next
    case o
    then show ?thesis
      by (simp add: getDepfileImpl_o [OF assms o] repeatedAfterArg_def)
  next
    case none
    then show ?thesis
      by (simp add: getDepfileImpl_none [OF assms none] repeatedAfterArg_def)
  qed
  then show "getDepfileImpl ss = Inl (MultipleCandidates ss) \<longleftrightarrow>
           repeatedAfterArg '' -MF '' ss
           \<or> (occurrences '' -MF '' ss = [] \<and> repeatedAfterArg '' -o '' ss)"
    and "getDepfileImpl ss = Inl (CannotFindDepfile ss) \<longleftrightarrow>
           occurrences '' -MF '' ss = [] \<and> occurrences '' -o '' ss = []"
    and "isl (getDepfileImpl ss) \<longleftrightarrow>
           repeatedAfterArg '' -MF '' ss
           \<or> (occurrences '' -MF '' ss = [] \<and> occurrences '' -o '' ss = [])
           \<or> (occurrences '' -MF '' ss = [] \<and> repeatedAfterArg '' -o '' ss)"
    by blast+
qed

lemma ccRe_fprintf [simp]: "ccRe (fprintf n l) = ccRe n"
  by (simp add: fprintf_def)

lemma emitRule_error:
  assumes "runners \<noteq> []"
    and "getDepfile (fst (genShellScript (gomaDir E) (ccRe n) runners)) = Inl err"
  shows "emitRule E runners n = Inl err"
  using assms
  by (simp add: emitRule_def genRuleName_def split_beta)

lemma emitNode_depfile_error:
  assumes "deref h a = Inr node" and "\<not> done' n (Output node)"
    and "\<not> (Cmds node = [] \<and> Deps node = [] \<and> \<not> IsPhony node)"
    and "createRunners E a \<noteq> []"
    and "getDepfile (fst (genShellScript (gomaDir E) (ccRe n) (createRunners E a))) = Inl err"
  shows "emitNode E h a n = Inl err"
proof -
  let ?n = "n\<lparr>done' := (done' n)(Output node := True)\<rparr>"
  have "emitRule E (createRunners E a) ?n = Inl err"
    by (rule emitRule_error) (use assms in simp_all)
  then have "emitStatements E h a node ?n = Inl err"
    by (simp add: emitStatements_def)
  with assms(1-3) show ?thesis
    by (simp add: emitNode.simps [of E h a n] Let_def)
qed

lemma emitDeps_append:
  "emitDeps E h (xs @ ys) n =
     (case emitDeps E h xs n of Inl err \<Rightarrow> Inl err | Inr n1 \<Rightarrow> emitDeps E h ys n1)"
  by (induction xs arbitrary: n) (simp_all split: sum.splits)

lemma emitDeps_error:
  assumes "emitDeps E h ds1 n = Inr n1" and "emitNode E h d n1 = Inl err"
  shows "emitDeps E h (ds1 @ d # ds2) n = Inl err"
  using assms by (simp add: emitDeps_append)

lemma emitNode_deps_error:
  assumes "deref h a = Inr node" and "\<not> done' n (Output node)"
    and "\<not> (Cmds node = [] \<and> Deps node = [] \<and> \<not> IsPhony node)"
    and "emitStatements E h a node (n\<lparr>done' := (done' n)(Output node := True)\<rparr>) = Inr n2"
    and "emitDeps E h (Deps node) n2 = Inl err"
  shows "emitNode E h a n = Inl err"
  using assms by (simp add: emitNode.simps [of E h a n] Let_def)

lemma GenerateNinja_error:
  assumes "generateShell E (NewNinjaGenerator g) = Inr sh"
    and "generateNinja E h (NewNinjaGenerator g) = Inl err"
  shows "GenerateNinja E h g = Inl err"
  using assms by (simp add: GenerateNinja_def)

lemma generateNinja_header:
  "generateNinja E h n =
     (if \<not> createOk E ''build.ninja'' then Inl CreateFailed
      else emitDeps E h (nodes n) (ninjaHeader E n))"
  by (simp add: generateNinja_def ninjaHeader_def Let_def fprintf_def)

lemma generateNinja_root_error:
  assumes "createOk E ''build.ninja''" and "nodes n = ds1 @ d # ds2"
    and "emitDeps E h ds1 (ninjaHeader E n) = Inr n1" and "emitNode E h d n1 = Inl err"
  shows "generateNinja E h n = Inl err"
  using assms by (simp add: generateNinja_header emitDeps_error)

text \<open>
  Claim C5, as the code has it. For a command text that asks for dependency tracking and
  is not the llvm-rs-cc case, the resolver returns an error exactly when \<open>-MF\<close> occurs
  again at or after the start of the token that follows its first occurrence (multiple
  output file candidates), or neither \<open>-MF\<close> nor \<open>-o\<close> occurs (cannot find the
  depfile), or \<open>-MF\<close> does not occur and \<open>-o\<close> occurs again at or after the start of
  the token that follows its first occurrence (multiple candidates again). An error ends
  the run: \<open>emitNode\<close> panics with it, the panic of a dependency is the panic of
  the loop over the dependencies and of the node that runs the loop, a panic of
  \<open>generateNinja\<close> is the panic of \<open>GenerateNinja\<close>, and the panic of
  \<open>emitNode\<close> on one of \<open>n.nodes\<close>, after the roots before it have been emitted,
  is the panic of \<open>generateNinja\<close> and so of the whole run.
\<close>

theorem getDepfile_errors_abort:
  "(\<not> Contains ss ''bin/llvm-rs-cc '' \<and> requestsDeps ss \<longrightarrow>
      (isl (getDepfile ss) \<longleftrightarrow>
         repeatedAfterArg '' -MF '' ss
         \<or> (occurrences '' -MF '' ss = [] \<and> occurrences '' -o '' ss = [])
         \<or> (occurrences '' -MF '' ss = [] \<and> repeatedAfterArg '' -o '' ss))
      \<and> (getDepfile ss = Inl (MultipleCandidates ss) \<longleftrightarrow>
         repeatedAfterArg '' -MF '' ss
         \<or> (occurrences '' -MF '' ss = [] \<and> repeatedAfterArg '' -o '' ss))
      \<and> (getDepfile ss = Inl (CannotFindDepfile ss) \<longleftrightarrow>
         occurrences '' -MF '' ss = [] \<and> occurrences '' -o '' ss = []))
   \<and> (deref h a = Inr node \<and> \<not> done' n (Output node)
        \<and> \<not> (Cmds node = [] \<and> Deps node = [] \<and> \<not> IsPhony node)
        \<and> createRunners E a \<noteq> []
        \<and> getDepfile (fst (genShellScript (gomaDir E) (ccRe n) (createRunners E a))) = Inl err
        \<longrightarrow> emitNode E h a n = Inl err)
   \<and> (emitDeps E h ds1 n = Inr n1 \<and> emitNode E h d n1 = Inl err
        \<longrightarrow> emitDeps E h (ds1 @ d # ds2) n = Inl err)
   \<and> (deref h a = Inr node \<and> \<not> done' n (Output node)
        \<and> \<not> (Cmds node = [] \<and> Deps node = [] \<and> \<not> IsPhony node)
        \<and> emitStatements E h a node (n\<lparr>done' := (done' n)(Output node := True)\<rparr>) = Inr n2
        \<and> emitDeps E h (Deps node) n2 = Inl err
        \<longrightarrow> emitNode E h a n = Inl err)
   \<and> (generateShell E (NewNinjaGenerator g) = Inr sh
        \<and> generateNinja E h (NewNinjaGenerator g) = Inl err
        \<longrightarrow> GenerateNinja E h g = Inl err)
   \<and> (createOk E ''build.ninja'' \<and> nodes n = ds1 @ d # ds2
        \<and> emitDeps E h ds1 (ninjaHeader E n) = Inr n1 \<and> emitNode E h d n1 = Inl err
        \<longrightarrow> generateNinja E h n = Inl err)
   \<and> (generateShell E (NewNinjaGenerator g) = Inr sh
        \<and> createOk E ''build.ninja'' \<and> g_nodes g = ds1 @ d # ds2
        \<and> emitDeps E h ds1 (ninjaHeader E (NewNinjaGenerator g)) = Inr n1
        \<and> emitNode E h d n1 = Inl err
        \<longrightarrow> GenerateNinja E h g = Inl err)"
proof (intro conjI impI)
  assume a: "\<not> Contains ss ''bin/llvm-rs-cc '' \<and> requestsDeps ss"
  then have rq: "requestsDeps ss" and nl: "\<not> Contains ss ''bin/llvm-rs-cc ''"
    by simp_all
  show "isl (getDepfile ss) \<longleftrightarrow>
         repeatedAfterArg '' -MF '' ss
         \<or> (occurrences '' -MF '' ss = [] \<and> occurrences '' -o '' ss = [])
         \<or> (occurrences '' -MF '' ss = [] \<and> repeatedAfterArg '' -o '' ss)"
    using nl by (simp only: getDepfile_isl_iff getDepfileImpl_errors(3) [OF rq]) simp
  show "getDepfile ss = Inl (MultipleCandidates ss) \<longleftrightarrow>
         repeatedAfterArg '' -MF '' ss
         \<or> (occurrences '' -MF '' ss = [] \<and> repeatedAfterArg '' -o '' ss)"
    using nl by (simp only: getDepfile_Inl_iff getDepfileImpl_errors(1) [OF rq]) simp
  show "getDepfile ss = Inl (CannotFindDepfile ss) \<longleftrightarrow>
         occurrences '' -MF '' ss = [] \<and> occurrences '' -o '' ss = []"
    using nl by (simp only: getDepfile_Inl_iff getDepfileImpl_errors(2) [OF rq]) simp
next
  assume "deref h a = Inr node \<and> \<not> done' n (Output node)
        \<and> \<not> (Cmds node = [] \<and> Deps node = [] \<and> \<not> IsPhony node)
        \<and> createRunners E a \<noteq> []
        \<and> getDepfile (fst (genShellScript (gomaDir E) (ccRe n) (createRunners E a))) = Inl err"
  then show "emitNode E h a n = Inl err"
    by (intro emitNode_depfile_error [of h a node]) blast+
next
  assume "emitDeps E h ds1 n = Inr n1 \<and> emitNode E h d n1 = Inl err"
  then show "emitDeps E h (ds1 @ d # ds2) n = Inl err"
    by (intro emitDeps_error [of E h ds1 n n1]) blast+
next
  assume "deref h a = Inr node \<and> \<not> done' n (Output node)
        \<and> \<not> (Cmds node = [] \<and> Deps node = [] \<and> \<not> IsPhony node)
        \<and> emitStatements E h a node (n\<lparr>done' := (done' n)(Output node := True)\<rparr>) = Inr n2
        \<and> emitDeps E h (Deps node) n2 = Inl err"
  then show "emitNode E h a n = Inl err"
    by (intro emitNode_deps_error [of h a node n E n2]) blast+
next
  assume "generateShell E (NewNinjaGenerator g) = Inr sh
        \<and> generateNinja E h (NewNinjaGenerator g) = Inl err"
  then show "GenerateNinja E h g = Inl err"
    by (intro GenerateNinja_error [of E g sh]) blast+
next
  assume "createOk E ''build.ninja'' \<and> nodes n = ds1 @ d # ds2
        \<and> emitDeps E h ds1 (ninjaHeader E n) = Inr n1 \<and> emitNode E h d n1 = Inl err"
  then show "generateNinja E h n = Inl err"
    by (intro generateNinja_root_error [of E n ds1 d ds2 h n1]) blast+
next
  assume a: "generateShell E (NewNinjaGenerator g) = Inr sh
        \<and> createOk E ''build.ninja'' \<and> g_nodes g = ds1 @ d # ds2
        \<and> emitDeps E h ds1 (ninjaHeader E (NewNinjaGenerator g)) = Inr n1
        \<and> emitNode E h d n1 = Inl err"
  then have "nodes (NewNinjaGenerator g) = ds1 @ d # ds2"
    by (simp add: NewNinjaGenerator_def)
  with a have "generateNinja E h (NewNinjaGenerator g) = Inl err"
    by (intro generateNinja_root_error [of E _ ds1 d ds2 h n1]) blast+
  with a show "GenerateNinja E h g = Inl err"
    by (intro GenerateNinja_error [of E g sh]) blast+
qed

text \<open>
  A second \<open>-MF\<close> that is itself the token after the first one is taken as the path:
  the flag occurs twice in the command below and there is no error.
\<close>

theorem getDepfile_repeated_flag_counterexample:
  "\<not> Contains ''gcc -MD -MF -MF x'' ''bin/llvm-rs-cc ''
   \<and> requestsDeps ''gcc -MD -MF -MF x''
   \<and> occurrences '' -MF '' ''gcc -MD -MF -MF x'' = [7, 11]
   \<and> occursTwice '' -MF '' ''gcc -MD -MF -MF x''
   \<and> getDepfile ''gcc -MD -MF -MF x'' = Inr ''-MF''"
  by code_simp

theorem getDepfile_errors_abort_witness:
  "isl (getDepfile ''gcc -MD -c x.c'')
   \<and> getDepfile ''cc -MD -MF a.d -MF b.d'' =
       Inl (MultipleCandidates ''cc -MD -MF a.d -MF b.d'')
   \<and> emitNode exampleEnv exampleStore 1 (NewNinjaGenerator exampleGraph) =
       Inl (CannotFindDepfile ''gcc -MD -c x.c'')
   \<and> emitDeps exampleEnv exampleStore [1] (NewNinjaGenerator exampleGraph) =
       Inl (CannotFindDepfile ''gcc -MD -c x.c'')
   \<and> emitNode exampleEnv exampleStore 0 (NewNinjaGenerator exampleGraph) =
       Inl (CannotFindDepfile ''gcc -MD -c x.c'')
   \<and> GenerateNinja exampleEnv exampleStore exampleGraph =
       Inl (CannotFindDepfile ''gcc -MD -c x.c'')
   \<and> generateNinja exampleEnv exampleStore (NewNinjaGenerator exampleGraph) =
       Inl (CannotFindDepfile ''gcc -MD -c x.c'')
   \<and> emitNode exampleEnv exampleStore 0
         (ninjaHeader exampleEnv (NewNinjaGenerator exampleGraph)) =
       Inl (CannotFindDepfile ''gcc -MD -c x.c'')"
proof -
  let ?E = exampleEnv and ?h = exampleStore and ?n = "NewNinjaGenerator exampleGraph"
  let ?hd = "ninjaHeader exampleEnv (NewNinjaGenerator exampleGraph)"
  let ?err = "CannotFindDepfile ''gcc -MD -c x.c''"
  let ?top = "\<lparr>Output = ''all'', Cmds = [], Deps = [1], IsOrderOnly = False, IsPhony = True\<rparr>"
  let ?obj = "\<lparr>Output = ''x.o'', Cmds = [''gcc -MD -c x.c''], Deps = [],
               IsOrderOnly = False, IsPhony = False\<rparr>"
  let ?n1 = "?n\<lparr>done' := (done' ?n)(Output ?top := True)\<rparr>"
  let ?n2 = "projr (emitStatements ?E ?h 0 ?top ?n1)"
  note T = getDepfile_errors_abort
  have s1: "\<not> Contains ''gcc -MD -c x.c'' ''bin/llvm-rs-cc '' \<and> requestsDeps ''gcc -MD -c x.c''"
    by code_simp
  have s2: "occurrences '' -MF '' ''gcc -MD -c x.c'' = [] \<and> occurrences '' -o '' ''gcc -MD -c x.c'' = []"
    by code_simp
  have w1: "isl (getDepfile ''gcc -MD -c x.c'')"
    using T [where ss = "''gcc -MD -c x.c''"] s1 s2 by blast
  have s3: "\<not> Contains ''cc -MD -MF a.d -MF b.d'' ''bin/llvm-rs-cc ''
      \<and> requestsDeps ''cc -MD -MF a.d -MF b.d''"
    by code_simp
  have s4: "repeatedAfterArg '' -MF '' ''cc -MD -MF a.d -MF b.d''"
    by code_simp
  have w2: "getDepfile ''cc -MD -MF a.d -MF b.d'' =
       Inl (MultipleCandidates ''cc -MD -MF a.d -MF b.d'')"
    using T [where ss = "''cc -MD -MF a.d -MF b.d''"] s3 s4 by blast
  have s5: "deref ?h 1 = Inr ?obj \<and> \<not> done' ?n (Output ?obj)
        \<and> \<not> (Cmds ?obj = [] \<and> Deps ?obj = [] \<and> \<not> IsPhony ?obj)
        \<and> createRunners ?E 1 \<noteq> []
        \<and> getDepfile (fst (genShellScript (gomaDir ?E) (ccRe ?n) (createRunners ?E 1))) = Inl ?err"
    by code_simp
  have w3: "emitNode ?E ?h 1 ?n = Inl ?err"
    using T [where h = ?h and a = 1 and node = ?obj and n = ?n and E = ?E and err = ?err] s5
    by blast
  have s6: "emitDeps ?E ?h [] ?n = Inr ?n" by simp
  have w4: "emitDeps ?E ?h ([] @ 1 # []) ?n = Inl ?err"
    using T [where E = ?E and h = ?h and ?ds1.0 = "[]" and n = ?n and ?n1.0 = ?n and d = 1
        and err = ?err and ?ds2.0 = "[]"] s6 w3
    by blast
  have s7: "deref ?h 0 = Inr ?top \<and> \<not> done' ?n (Output ?top)
        \<and> \<not> (Cmds ?top = [] \<and> Deps ?top = [] \<and> \<not> IsPhony ?top)"
    by code_simp
  have "\<not> isl (emitStatements ?E ?h 0 ?top ?n1)" by code_simp
  then have s8: "emitStatements ?E ?h 0 ?top ?n1 = Inr ?n2" by simp
  have "isl (emitDeps ?E ?h (Deps ?top) ?n2) \<and> projl (emitDeps ?E ?h (Deps ?top) ?n2) = ?err"
    by code_simp
  then have s9: "emitDeps ?E ?h (Deps ?top) ?n2 = Inl ?err"
    by (metis sum.collapse(1))
  have w5: "emitNode ?E ?h 0 ?n = Inl ?err"
    using T [where h = ?h and a = 0 and node = ?top and n = ?n and E = ?E and err = ?err
        and ?n2.0 = ?n2] s7 s8 s9
    by blast
  have s10: "generateShell ?E (NewNinjaGenerator exampleGraph) = Inr [Shebang ''/bin/sh'', ExecNinja]"
    by code_simp
  have "isl (generateNinja ?E ?h ?n) \<and> projl (generateNinja ?E ?h ?n) = ?err"
    by code_simp
  then have s11: "generateNinja ?E ?h (NewNinjaGenerator exampleGraph) = Inl ?err"
    by (metis sum.collapse(1))
  have w6: "GenerateNinja ?E ?h exampleGraph = Inl ?err"
    using T [where E = ?E and g = exampleGraph and h = ?h and err = ?err
        and sh = "[Shebang ''/bin/sh'', ExecNinja]"] s10 s11
    by blast
  have s12: "createOk ?E ''build.ninja'' \<and> nodes ?n = [] @ 0 # []
      \<and> g_nodes exampleGraph = [] @ 0 # []"
    by code_simp
  have s13: "emitDeps ?E ?h [] ?hd = Inr ?hd" by simp
  have "isl (emitNode ?E ?h 0 ?hd) \<and> projl (emitNode ?E ?h 0 ?hd) = ?err"
    by code_simp
  then have s14: "emitNode ?E ?h 0 ?hd = Inl ?err"
    by (metis sum.collapse(1))
  have w7: "generateNinja ?E ?h ?n = Inl ?err"
    using T [where E = ?E and h = ?h and n = ?n and ?ds1.0 = "[]" and d = 0
        and ?ds2.0 = "[]" and ?n1.0 = ?hd and err = ?err] s12 s13 s14
    by blast
  have w8: "GenerateNinja ?E ?h exampleGraph = Inl ?err"
    using T [where E = ?E and h = ?h and g = exampleGraph and ?ds1.0 = "[]" and d = 0
        and ?ds2.0 = "[]" and ?n1.0 = ?hd and err = ?err
        and sh = "[Shebang ''/bin/sh'', ExecNinja]"] s10 s12 s13 s14
    by blast
  from w1 w2 w3 w4 w5 w6 w7 w8 s14 show ?thesis by simp
qed


section \<open>Properties of genShellScript\<close>

lemma genShellLoop_step:
  assumes "i < length rs"
  shows "genShellLoop gd re rs i buf ug =
         genShellLoop gd re rs (Suc i) (buf @ joinText rs i @ unitText gd re rs i)
           (ug \<or> snd (normalizeCmd gd re (cmd (rs ! i))))"
proof -
  obtain c u where cu: "normalizeCmd gd re (cmd (rs ! i)) = (c, u)"
    by (cases "normalizeCmd gd re (cmd (rs ! i))")
  have w: "(0 < i \<or> 1 < length rs) \<longleftrightarrow> \<not> (i = 0 \<and> length rs = 1)"
    using assms by auto
  show ?thesis
    using assms cu
    by (subst genShellLoop.simps)
       (auto simp: Let_def joinText_def unitText_def subShell_def cmdText_def trueSuffix_def w)
qed

lemma genShellLoop_closed:
  "i \<le> length rs \<Longrightarrow>
   fst (genShellLoop gd re rs i buf ug) =
     buf @ concat (map (\<lambda>j. joinText rs j @ unitText gd re rs j) [i..<length rs])"
proof (induction "length rs - i" arbitrary: i buf ug)
  case 0
  then have "i = length rs" by simp
  then show ?case by (subst genShellLoop.simps) simp
next
  case (Suc k)
  then have lt: "i < length rs" by simp
  have "k = length rs - Suc i" using Suc.hyps(2) by simp
  from Suc.hyps(1) [OF this] lt
  have "fst (genShellLoop gd re rs (Suc i) b g) =
        b @ concat (map (\<lambda>j. joinText rs j @ unitText gd re rs j) [Suc i..<length rs])"
    for b g by simp
  then show ?case
    by (simp add: genShellLoop_step [OF lt] upt_conv_Cons [OF lt])
qed

lemma genShellScript_closed:
  "fst (genShellScript gd re rs) =
     concat (map (\<lambda>j. joinText rs j @ unitText gd re rs j) [0..<length rs])"
  by (simp add: genShellScript_def genShellLoop_closed)

lemma cmdText_nonempty: "cmdText gd re r \<noteq> []"
  by (simp add: cmdText_def normalizeCmd_def Let_def)

text \<open>
  Claim C2, as the code has it. In a chain of two or more commands every command but the
  first is joined to the one before it by \<open>" ; "\<close> (a space on each side of the
  semicolon) when the previous command ignores errors and by \<open>" && "\<close> when it does
  not, and \<open>" ; true"\<close> is appended after the last command when that one ignores
  errors. Each command stands in a sub-shell unless its text begins with \<open>(\<close>; the
  second conjunct is the chain of two commands written out.
\<close>

theorem genShellScript_joins:
  "(2 \<le> length rs \<longrightarrow>
      fst (genShellScript gd re rs) =
        concat (map (\<lambda>i. joinText rs i
                       @ subShell (hd (cmdText gd re (rs ! i)) \<noteq> CHR ''('')
                           (cmdText gd re (rs ! i) @ trueSuffix rs i))
                  [0..<length rs]))
   \<and> fst (genShellScript gd re [a, b]) =
        subShell (hd (cmdText gd re a) \<noteq> CHR ''('') (cmdText gd re a)
        @ (if ignoreError a then '' ; '' else '' && '')
        @ subShell (hd (cmdText gd re b) \<noteq> CHR ''('')
            (cmdText gd re b @ (if ignoreError b then '' ; true'' else []))"
proof (intro conjI impI)
  assume n: "2 \<le> length rs"
  have "unitText gd re rs i =
        subShell (hd (cmdText gd re (rs ! i)) \<noteq> CHR ''('')
          (cmdText gd re (rs ! i) @ trueSuffix rs i)" for i
    using n by (simp add: unitText_def)
  then show "fst (genShellScript gd re rs) =
        concat (map (\<lambda>i. joinText rs i
                       @ subShell (hd (cmdText gd re (rs ! i)) \<noteq> CHR ''('')
                           (cmdText gd re (rs ! i) @ trueSuffix rs i))
                  [0..<length rs])"
    by (simp add: genShellScript_closed)
next
  have "[0..<length [a, b]] = [0, 1]" by (simp add: upt_rec)
  then show "fst (genShellScript gd re [a, b]) =
        subShell (hd (cmdText gd re a) \<noteq> CHR ''('') (cmdText gd re a)
        @ (if ignoreError a then '' ; '' else '' && '')
        @ subShell (hd (cmdText gd re b) \<noteq> CHR ''('')
            (cmdText gd re b @ (if ignoreError b then '' ; true'' else []))"
    by (simp add: genShellScript_closed joinText_def unitText_def trueSuffix_def)
qed

theorem genShellScript_joins_witness:
  "fst (genShellScript [] ccReMatchString
         [\<lparr>cmd = ''mkdir -p out'', ignoreError = True\<rparr>,
          \<lparr>cmd = ''(cd out; touch a)'', ignoreError = False\<rparr>,
          \<lparr>cmd = ''rm -f tmp # clean'', ignoreError = True\<rparr>]) =
     ''(mkdir -p out) ; (cd out; touch a) && (rm -f tmp ; true)''"
proof -
  let ?rs = "[\<lparr>cmd = ''mkdir -p out'', ignoreError = True\<rparr>,
          \<lparr>cmd = ''(cd out; touch a)'', ignoreError = False\<rparr>,
          \<lparr>cmd = ''rm -f tmp # clean'', ignoreError = True\<rparr>]"
  have n: "2 \<le> length ?rs" by simp
  have "concat (map (\<lambda>i. joinText ?rs i
                       @ subShell (hd (cmdText [] ccReMatchString (?rs ! i)) \<noteq> CHR ''('')
                           (cmdText [] ccReMatchString (?rs ! i) @ trueSuffix ?rs i))
                  [0..<length ?rs]) =
        ''(mkdir -p out) ; (cd out; touch a) && (rm -f tmp ; true)''"
    by code_simp
  with n genShellScript_joins [of ?rs "[]" ccReMatchString] show ?thesis
    by presburger
qed

text \<open>
  With \<open>"; "\<close> as the joiner, as the claim writes it, the chain of the two commands
  \<open>a\<close> (ignoring errors) and \<open>b\<close> would be \<open>(a); (b)\<close>; the code writes
  \<open>(a) ; (b)\<close>.
\<close>

theorem genShellScript_joins_counterexample:
  "fst (genShellScript [] ccReMatchString
         [\<lparr>cmd = ''a'', ignoreError = True\<rparr>, \<lparr>cmd = ''b'', ignoreError = False\<rparr>]) =
     ''(a) ; (b)''
   \<and> ''(a)'' @ claimedJoinText
         [\<lparr>cmd = ''a'', ignoreError = True\<rparr>, \<lparr>cmd = ''b'', ignoreError = False\<rparr>] 1 @ ''(b)'' =
     ''(a); (b)''
   \<and> fst (genShellScript [] ccReMatchString
         [\<lparr>cmd = ''a'', ignoreError = True\<rparr>, \<lparr>cmd = ''b'', ignoreError = False\<rparr>]) \<noteq>
     ''(a)'' @ claimedJoinText
         [\<lparr>cmd = ''a'', ignoreError = True\<rparr>, \<lparr>cmd = ''b'', ignoreError = False\<rparr>] 1 @ ''(b)''"
  by code_simp

text \<open>
  Claim C8. The command at position \<open>i\<close> of a chain of \<open>n\<close> commands is written
  without a sub-shell when it is the only command of the chain (\<open>i = 0\<close> and
  \<open>n = 1\<close>) or its text begins with \<open>(\<close>, and in a sub-shell \<open>( ... )\<close> in
  every other case. The text of a command is never empty, so its first byte exists; a
  chain of one command is that command, unwrapped.
\<close>

theorem genShellScript_subshell:
  "fst (genShellScript gd re rs) =
     concat (map (\<lambda>i. joinText rs i
                   @ (if (i = 0 \<and> length rs = 1) \<or> hd (cmdText gd re (rs ! i)) = CHR ''(''
                      then cmdText gd re (rs ! i) @ trueSuffix rs i
                      else ''('' @ cmdText gd re (rs ! i) @ trueSuffix rs i @ '')''))
               [0..<length rs])
   \<and> cmdText gd re r \<noteq> []
   \<and> fst (genShellScript gd re [r]) =
       cmdText gd re r @ (if ignoreError r then '' ; true'' else [])"
proof (intro conjI)
  show "fst (genShellScript gd re rs) =
     concat (map (\<lambda>i. joinText rs i
                   @ (if (i = 0 \<and> length rs = 1) \<or> hd (cmdText gd re (rs ! i)) = CHR ''(''
                      then cmdText gd re (rs ! i) @ trueSuffix rs i
                      else ''('' @ cmdText gd re (rs ! i) @ trueSuffix rs i @ '')''))
               [0..<length rs])"
  proof -
    have u: "unitText gd re rs i =
        (if (i = 0 \<and> length rs = 1) \<or> hd (cmdText gd re (rs ! i)) = CHR ''(''
         then cmdText gd re (rs ! i) @ trueSuffix rs i
         else ''('' @ cmdText gd re (rs ! i) @ trueSuffix rs i @ '')'')" for i
      by (simp add: unitText_def subShell_def)
    show ?thesis by (simp only: genShellScript_closed u)
  qed
  show "cmdText gd re r \<noteq> []"
    by (rule cmdText_nonempty)
  show "fst (genShellScript gd re [r]) =
       cmdText gd re r @ (if ignoreError r then '' ; true'' else [])"
    by (simp add: genShellScript_closed joinText_def unitText_def trueSuffix_def subShell_def)
qed

theorem genShellScript_subshell_witness:
  "fst (genShellScript [] ccReMatchString [\<lparr>cmd = ''echo one'', ignoreError = False\<rparr>]) =
     ''echo one''
   \<and> fst (genShellScript [] ccReMatchString
         [\<lparr>cmd = ''echo one'', ignoreError = False\<rparr>,
          \<lparr>cmd = ''(echo two)'', ignoreError = False\<rparr>,
          \<lparr>cmd = ''echo three'', ignoreError = False\<rparr>]) =
     ''(echo one) && (echo two) && (echo three)''"
proof -
  let ?r = "\<lparr>cmd = ''echo one'', ignoreError = False\<rparr>"
  let ?rs = "[\<lparr>cmd = ''echo one'', ignoreError = False\<rparr>,
          \<lparr>cmd = ''(echo two)'', ignoreError = False\<rparr>,
          \<lparr>cmd = ''echo three'', ignoreError = False\<rparr>]"
  have a: "cmdText [] ccReMatchString ?r @ (if ignoreError ?r then '' ; true'' else []) =
        ''echo one''"
    by code_simp
  have b: "concat (map (\<lambda>i. joinText ?rs i
                   @ (if (i = 0 \<and> length ?rs = 1)
                         \<or> hd (cmdText [] ccReMatchString (?rs ! i)) = CHR ''(''
                      then cmdText [] ccReMatchString (?rs ! i) @ trueSuffix ?rs i
                      else ''('' @ cmdText [] ccReMatchString (?rs ! i) @ trueSuffix ?rs i @ '')''))
               [0..<length ?rs]) =
        ''(echo one) && (echo two) && (echo three)''"
    by code_simp
  from genShellScript_subshell [of "[]" ccReMatchString ?rs ?r] a b show ?thesis
    by presburger
qed


section \<open>The rule block and the response file\<close>

lemma longText_facts: "length (longText k) = k" "0 < k \<Longrightarrow> set (longText k) = {CHR ''a''}"
  by (simp_all add: longText_def)

lemma genShellScript_nonempty:
  assumes "runners \<noteq> []"
  shows "fst (genShellScript gd re runners) \<noteq> []"
proof -
  from assms have "[0..<length runners] = 0 # [1..<length runners]"
    by (simp add: upt_conv_Cons)
  moreover have "unitText gd re runners 0 \<noteq> []"
    by (simp add: unitText_def subShell_def cmdText_nonempty)
  ultimately show ?thesis
    by (simp add: genShellScript_closed)
qed

lemma ruleId_fprintf [simp]: "ruleId (fprintf n l) = ruleId n"
  by (simp add: fprintf_def)

lemma f_fprintf [simp]: "f (fprintf n l) = f n @ [l]"
  by (simp add: fprintf_def)

lemma emitRule_result:
  assumes "runners \<noteq> []"
    and "genShellScript (gomaDir E) (ccRe n) runners = (ss, ulp)"
    and "getDepfile ss = Inr depfile"
  shows "emitRule E runners n =
     Inr (''rule'' @ decimal (ruleId n), ulp,
          n\<lparr>ruleId := ruleId n + 1,
            f := f n @ [RuleDecl (''rule'' @ decimal (ruleId n)), Description]
                 @ (if depfile \<noteq> [] then [DepfileLine depfile] else [])
                 @ (if ArgLenLimit < length ss
                    then [RspfileLine, RspfileContent ss, CommandLine ''sh $out.rsp'']
                    else [CommandLine ss])\<rparr>)"
  using assms
  by (simp add: emitRule_def genRuleName_def fprintf_def)

text \<open>
  Claim C7, as the code has it. The chain text of a rule is never empty. When it is at
  most 100,000 bytes long (\<open>len(ss)\<close> counts bytes), the rule block ends with the
  command line that carries the chain text itself. When it is longer (100,001 bytes are
  enough), the rule block ends with \<open>rspfile = $out.rsp\<close>, \<open>rspfile_content\<close> set
  to the whole chain text, and the command \<open>sh $out.rsp\<close>. The last three conjuncts
  are the texts of these lines.
\<close>

theorem emitRule_response_file:
  "(runners \<noteq> [] \<longrightarrow> fst (genShellScript (gomaDir E) (ccRe n) runners) \<noteq> [])
   \<and> (runners \<noteq> [] \<and> genShellScript (gomaDir E) (ccRe n) runners = (ss, ulp)
        \<and> getDepfile ss = Inr depfile \<and> length ss \<le> 100000
        \<longrightarrow> emitRule E runners n =
            Inr (''rule'' @ decimal (ruleId n), ulp,
                 n\<lparr>ruleId := ruleId n + 1,
                   f := f n @ [RuleDecl (''rule'' @ decimal (ruleId n)), Description]
                        @ (if depfile \<noteq> [] then [DepfileLine depfile] else [])
                        @ [CommandLine ss]\<rparr>))
   \<and> (runners \<noteq> [] \<and> genShellScript (gomaDir E) (ccRe n) runners = (ss, ulp)
        \<and> getDepfile ss = Inr depfile \<and> 100000 < length ss
        \<longrightarrow> emitRule E runners n =
            Inr (''rule'' @ decimal (ruleId n), ulp,
                 n\<lparr>ruleId := ruleId n + 1,
                   f := f n @ [RuleDecl (''rule'' @ decimal (ruleId n)), Description]
                        @ (if depfile \<noteq> [] then [DepfileLine depfile] else [])
                        @ [RspfileLine, RspfileContent ss, CommandLine ''sh $out.rsp'']\<rparr>))
   \<and> renderNinja RspfileLine = '' rspfile = $out.rsp'' @ [NEWLINE]
   \<and> renderNinja (RspfileContent ss) = '' rspfile_content = '' @ ss @ [NEWLINE]
   \<and> renderNinja (CommandLine ss) = '' command = '' @ ss @ [NEWLINE]"
proof (intro conjI impI)
  show "fst (genShellScript (gomaDir E) (ccRe n) runners) \<noteq> []" if "runners \<noteq> []"
    using that by (rule genShellScript_nonempty)
  show "emitRule E runners n =
            Inr (''rule'' @ decimal (ruleId n), ulp,
                 n\<lparr>ruleId := ruleId n + 1,
                   f := f n @ [RuleDecl (''rule'' @ decimal (ruleId n)), Description]
                        @ (if depfile \<noteq> [] then [DepfileLine depfile] else [])
                        @ [CommandLine ss]\<rparr>)"
    if "runners \<noteq> [] \<and> genShellScript (gomaDir E) (ccRe n) runners = (ss, ulp)
        \<and> getDepfile ss = Inr depfile \<and> length ss \<le> 100000"
  proof -
    from that have "\<not> ArgLenLimit < length ss" by (simp add: ArgLenLimit_def)
    with that emitRule_result [of runners E n ss ulp depfile] show ?thesis by simp
  qed
  show "emitRule E runners n =
            Inr (''rule'' @ decimal (ruleId n), ulp,
                 n\<lparr>ruleId := ruleId n + 1,
                   f := f n @ [RuleDecl (''rule'' @ decimal (ruleId n)), Description]
                        @ (if depfile \<noteq> [] then [DepfileLine depfile] else [])
                        @ [RspfileLine, RspfileContent ss, CommandLine ''sh $out.rsp'']\<rparr>)"
    if "runners \<noteq> [] \<and> genShellScript (gomaDir E) (ccRe n) runners = (ss, ulp)
        \<and> getDepfile ss = Inr depfile \<and> 100000 < length ss"
  proof -
    from that have "ArgLenLimit < length ss" by (simp add: ArgLenLimit_def)
    with that emitRule_result [of runners E n ss ulp depfile] show ?thesis by simp
  qed
qed simp_all

lemma Index_None_notin:
  assumes "c \<in> set sub" and "c \<notin> set s"
  shows "Index s sub = None"
proof (rule ccontr)
  assume "Index s sub \<noteq> None"
  then obtain j where "Index s sub = Some j" by auto
  from Index_Some_D [OF this] have "prefix sub (drop j s)" by simp
  then have "set sub \<subseteq> set (drop j s)" by (rule set_mono_prefix)
  also have "\<dots> \<subseteq> set s" by (rule set_drop_subset)
  finally show False using assms by auto
qed

lemma Replace_id:
  assumes "hd old \<notin> set s"
  shows "Replace s old new = s"
  using assms
proof (induction s)
  case Nil
  show ?case by simp
next
  case (Cons c s)
  have np: "\<not> (old \<noteq> [] \<and> prefix old (c # s))"
  proof
    assume "old \<noteq> [] \<and> prefix old (c # s)"
    then have "hd old = c" by (cases old) auto
    with Cons.prems show False by simp
  qed
  from Cons.prems have "hd old \<notin> set s" by simp
  then have "Replace s old new = s" by (rule Cons.IH)
  with np show ?case by (simp only: Replace.simps if_False)
qed

lemma normalizeCmd_plain:
  assumes "set s = {CHR ''a''}"
  shows "normalizeCmd [] re s = (s, False)"
proof -
  have ne: "s \<noteq> []"
  proof
    assume "s = []"
    with assms show False by simp
  qed
  have "CHR ''#'' \<notin> set s" by (simp add: assms)
  then have 1: "stripShellComment s = s"
    by (simp add: stripShellComment_def IndexByte_None_iff)
  have "hd s \<in> set s" by (rule hd_in_set [OF ne])
  then have "hd s = CHR ''a''" by (simp add: assms)
  then have "\<not> isWhitespace (hd s)" by (simp add: isWhitespace_def)
  then have 2: "trimLeftSpace s = s"
    using ne by (cases s) (simp_all add: trimLeftSpace_def)
  have 3: "Replace s [BSLASH, NEWLINE] '' '' = s"
    by (rule Replace_id) (simp add: assms)
  have "last s \<in> set s" by (rule last_in_set [OF ne])
  then have "last s = CHR ''a''" by (simp add: assms)
  then have 4: "TrimRight s [CHR '' '', TAB, NEWLINE, CHR '';''] = s"
    using ne by (cases s rule: rev_cases) (simp_all add: TrimRight_def)
  have 5: "Replace s ''$'' ''$$'' = s"
    by (rule Replace_id) (simp add: assms)
  have 6: "Replace s [TAB] '' '' = s"
    by (rule Replace_id) (simp add: assms)
  show ?thesis
    unfolding normalizeCmd_def Let_def 1 2 3 4 5 6 using ne by simp
qed

lemma genShellLoop_snd_nogoma: "snd (genShellLoop [] re rs i buf ug) = False"
proof (induction "length rs - i" arbitrary: i buf ug)
  case 0
  then have "\<not> i < length rs" by simp
  then show ?case by (subst genShellLoop.simps) simp
next
  case (Suc k)
  then have lt: "i < length rs" by simp
  have "k = length rs - Suc i" using Suc.hyps(2) by simp
  from Suc.hyps(1) [OF this] show ?case
    by (simp add: genShellLoop_step [OF lt])
qed

lemma genShellScript_plain:
  assumes "set s = {CHR ''a''}"
  shows "genShellScript [] re [\<lparr>cmd = s, ignoreError = False\<rparr>] = (s, False)"
proof -
  have "[0..<length [\<lparr>cmd = s, ignoreError = False\<rparr>]] = [0]" by simp
  then have "fst (genShellScript [] re [\<lparr>cmd = s, ignoreError = False\<rparr>]) =
      joinText [\<lparr>cmd = s, ignoreError = False\<rparr>] 0
      @ unitText [] re [\<lparr>cmd = s, ignoreError = False\<rparr>] 0"
    by (simp only: genShellScript_closed list.map concat.simps append_Nil2)
  also have "\<dots> = s"
    by (simp add: joinText_def unitText_def trueSuffix_def
        subShell_def cmdText_def normalizeCmd_plain [OF assms])
  finally have "fst (genShellScript [] re [\<lparr>cmd = s, ignoreError = False\<rparr>]) = s" .
  moreover have "snd (genShellScript [] re [\<lparr>cmd = s, ignoreError = False\<rparr>]) = False"
    by (simp add: genShellScript_def genShellLoop_snd_nogoma)
  ultimately show ?thesis by (simp add: prod_eq_iff)
qed

lemma getDepfile_plain:
  assumes "set s = {CHR ''a''}"
  shows "getDepfile s = Inr []"
proof -
  have "CHR ''b'' \<notin> set s" "CHR ''-'' \<notin> set (s @ '' '')" by (simp_all add: assms)
  then have "Index s ''bin/llvm-rs-cc '' = None"
    "Index (s @ '' '') '' -MD '' = None" "Index (s @ '' '') '' -MMD '' = None"
    using Index_None_notin [of "CHR ''b''" "''bin/llvm-rs-cc ''" s]
      Index_None_notin [of "CHR ''-''" "'' -MD ''" "s @ '' ''"]
      Index_None_notin [of "CHR ''-''" "'' -MMD ''" "s @ '' ''"]
    by simp_all
  then show ?thesis
    by (simp add: getDepfile_def getDepfileImpl_def Contains_def)
qed

theorem emitRule_response_file_witness:
  "emitRule exampleEnv [\<lparr>cmd = longText 100000, ignoreError = False\<rparr>]
     (NewNinjaGenerator exampleGraph) =
     Inr (''rule0'', False,
          (NewNinjaGenerator exampleGraph)
            \<lparr>ruleId := 1,
             f := [RuleDecl ''rule0'', Description, CommandLine (longText 100000)]\<rparr>)
   \<and> emitRule exampleEnv [\<lparr>cmd = longText 100001, ignoreError = False\<rparr>]
     (NewNinjaGenerator exampleGraph) =
     Inr (''rule0'', False,
          (NewNinjaGenerator exampleGraph)
            \<lparr>ruleId := 1,
             f := [RuleDecl ''rule0'', Description, RspfileLine,
                   RspfileContent (longText 100001), CommandLine ''sh $out.rsp'']\<rparr>)"
proof -
  let ?n = "NewNinjaGenerator exampleGraph"
  let ?E = exampleEnv
  have E: "gomaDir ?E = []" by (simp add: exampleEnv_def)
  have n: "ruleId ?n = 0" "f ?n = []" by (simp_all add: NewNinjaGenerator_def)
  have dec: "decimal 0 = ''0''" by code_simp
  have plain: "[\<lparr>cmd = longText k, ignoreError = False\<rparr>] \<noteq> []
      \<and> genShellScript (gomaDir ?E) (ccRe ?n) [\<lparr>cmd = longText k, ignoreError = False\<rparr>] =
          (longText k, False)
      \<and> getDepfile (longText k) = Inr []"
    if "0 < k" for k
  proof -
    from that have s: "set (longText k) = {CHR ''a''}"
      by (rule longText_facts(2))
    show ?thesis
      unfolding E genShellScript_plain [OF s] getDepfile_plain [OF s] by simp
  qed
  let ?s = "longText 100000" and ?t = "longText 100001"
  have "[\<lparr>cmd = ?s, ignoreError = False\<rparr>] \<noteq> []
      \<and> genShellScript (gomaDir ?E) (ccRe ?n) [\<lparr>cmd = ?s, ignoreError = False\<rparr>] = (?s, False)
      \<and> getDepfile ?s = Inr [] \<and> length ?s \<le> 100000"
    using plain [of 100000] by (simp add: longText_facts)
  from this emitRule_response_file
      [of "[\<lparr>cmd = ?s, ignoreError = False\<rparr>]" ?E ?n ?s False "[]"]
  have a: "emitRule ?E [\<lparr>cmd = ?s, ignoreError = False\<rparr>] ?n =
     Inr (''rule0'', False, ?n\<lparr>ruleId := 1, f := [RuleDecl ''rule0'', Description, CommandLine ?s]\<rparr>)"
    by (simp add: n dec)
  have "[\<lparr>cmd = ?t, ignoreError = False\<rparr>] \<noteq> []
      \<and> genShellScript (gomaDir ?E) (ccRe ?n) [\<lparr>cmd = ?t, ignoreError = False\<rparr>] = (?t, False)
      \<and> getDepfile ?t = Inr [] \<and> 100000 < length ?t"
    using plain [of 100001] by (simp add: longText_facts)
  from this emitRule_response_file
      [of "[\<lparr>cmd = ?t, ignoreError = False\<rparr>]" ?E ?n ?t False "[]"]
  have b: "emitRule ?E [\<lparr>cmd = ?t, ignoreError = False\<rparr>] ?n =
     Inr (''rule0'', False,
          ?n\<lparr>ruleId := 1, f := [RuleDecl ''rule0'', Description, RspfileLine,
                   RspfileContent ?t, CommandLine ''sh $out.rsp'']\<rparr>)"
    by (simp add: n dec)
  from a b show ?thesis by (rule conjI)
qed


lemma utf8Text_Suc: "utf8Text (Suc k) = CHR 0xC3 # CHR 0xA9 # utf8Text k"
  by (simp add: utf8Text_def)

lemma utf8Text_facts:
  "length (utf8Text k) = 2 * k" "utf8Length (utf8Text k) = k" "\<forall>c \<in> set (utf8Text k). plainByte c"
proof -
  show "length (utf8Text k) = 2 * k"
    by (induction k) (simp_all add: utf8Text_Suc, simp add: utf8Text_def)
  show "utf8Length (utf8Text k) = k"
  proof (induction k)
    case 0
    show ?case by (simp add: utf8Text_def utf8Length_def)
  next
    case (Suc k)
    then show ?case by (simp add: utf8Text_Suc utf8Length_def)
  qed
  show "\<forall>c \<in> set (utf8Text k). plainByte c"
  proof (induction k)
    case 0
    show ?case by (simp add: utf8Text_def)
  next
    case (Suc k)
    have "plainByte (CHR 0xC3)" "plainByte (CHR 0xA9)" by (simp_all add: plainByte_def)
    with Suc show ?case by (simp add: utf8Text_Suc)
  qed
qed

lemma notin_plain: "\<forall>c \<in> set s. plainByte c \<Longrightarrow> \<not> plainByte x \<Longrightarrow> x \<notin> set s"
  by blast

lemma normalizeCmd_plainBytes:
  assumes "s \<noteq> []" and "\<forall>c \<in> set s. plainByte c"
  shows "normalizeCmd [] re s = (s, False)"
proof -
  note ni = notin_plain [OF assms(2)]
  have "CHR ''#'' \<notin> set s" by (rule ni) (simp add: plainByte_def)
  then have 1: "stripShellComment s = s"
    by (simp add: stripShellComment_def IndexByte_None_iff)
  have "hd s \<in> set s" by (rule hd_in_set [OF assms(1)])
  with assms(2) have "plainByte (hd s)" by blast
  then have "\<not> isWhitespace (hd s)" by (simp add: isWhitespace_def plainByte_def)
  then have 2: "trimLeftSpace s = s"
    using assms(1) by (cases s) (simp_all add: trimLeftSpace_def)
  have "BSLASH \<notin> set s" by (rule ni) (simp add: plainByte_def)
  then have 3: "Replace s [BSLASH, NEWLINE] '' '' = s"
    by (intro Replace_id) simp
  have "last s \<in> set s" by (rule last_in_set [OF assms(1)])
  with assms(2) have "plainByte (last s)" by blast
  then have "last s \<notin> set [CHR '' '', TAB, NEWLINE, CHR '';'']"
    by (simp add: plainByte_def)
  then have 4: "TrimRight s [CHR '' '', TAB, NEWLINE, CHR '';''] = s"
    using assms(1) by (cases s rule: rev_cases) (simp_all add: TrimRight_def)
  have "CHR ''$'' \<notin> set s" by (rule ni) (simp add: plainByte_def)
  then have 5: "Replace s ''$'' ''$$'' = s"
    by (intro Replace_id) simp
  have "TAB \<notin> set s" by (rule ni) (simp add: plainByte_def)
  then have 6: "Replace s [TAB] '' '' = s"
    by (intro Replace_id) simp
  show ?thesis
    unfolding normalizeCmd_def Let_def 1 2 3 4 5 6 using assms(1) by simp
qed

lemma genShellScript_plainBytes:
  assumes "s \<noteq> []" and "\<forall>c \<in> set s. plainByte c"
  shows "genShellScript [] re [\<lparr>cmd = s, ignoreError = False\<rparr>] = (s, False)"
proof -
  have "[0..<length [\<lparr>cmd = s, ignoreError = False\<rparr>]] = [0]" by simp
  then have "fst (genShellScript [] re [\<lparr>cmd = s, ignoreError = False\<rparr>]) =
      joinText [\<lparr>cmd = s, ignoreError = False\<rparr>] 0
      @ unitText [] re [\<lparr>cmd = s, ignoreError = False\<rparr>] 0"
    by (simp only: genShellScript_closed list.map concat.simps append_Nil2)
  also have "\<dots> = s"
    by (simp add: joinText_def unitText_def trueSuffix_def
        subShell_def cmdText_def normalizeCmd_plainBytes [OF assms])
  finally have "fst (genShellScript [] re [\<lparr>cmd = s, ignoreError = False\<rparr>]) = s" .
  moreover have "snd (genShellScript [] re [\<lparr>cmd = s, ignoreError = False\<rparr>]) = False"
    by (simp add: genShellScript_def genShellLoop_snd_nogoma)
  ultimately show ?thesis by (simp add: prod_eq_iff)
qed

lemma getDepfile_plainBytes:
  assumes "\<forall>c \<in> set s. plainByte c"
  shows "getDepfile s = Inr []"
proof -
  note ni = notin_plain [OF assms]
  have b: "CHR ''b'' \<notin> set s" by (rule ni) (simp add: plainByte_def)
  have "CHR ''-'' \<notin> set s" by (rule ni) (simp add: plainByte_def)
  then have m: "CHR ''-'' \<notin> set (s @ '' '')" by simp
  have "Index s ''bin/llvm-rs-cc '' = None"
    "Index (s @ '' '') '' -MD '' = None" "Index (s @ '' '') '' -MMD '' = None"
    using Index_None_notin [of "CHR ''b''" "''bin/llvm-rs-cc ''" s, OF _ b]
      Index_None_notin [of "CHR ''-''" "'' -MD ''" "s @ '' ''", OF _ m]
      Index_None_notin [of "CHR ''-''" "'' -MMD ''" "s @ '' ''", OF _ m]
    by simp_all
  then show ?thesis
    by (simp add: getDepfile_def getDepfileImpl_def Contains_def)
qed

text \<open>
  Counted in characters the claim fails: a chain text of 50,001 characters of two bytes
  each is under 100,000 characters and 100,002 bytes long, and it goes to the response
  file.
\<close>

theorem emitRule_characters_counterexample:
  "utf8Length (utf8Text 50001) = 50001
   \<and> length (utf8Text 50001) = 100002
   \<and> genShellScript (gomaDir exampleEnv) (ccRe (NewNinjaGenerator exampleGraph))
        [\<lparr>cmd = utf8Text 50001, ignoreError = False\<rparr>] = (utf8Text 50001, False)
   \<and> emitRule exampleEnv [\<lparr>cmd = utf8Text 50001, ignoreError = False\<rparr>]
        (NewNinjaGenerator exampleGraph) =
      Inr (''rule0'', False,
           (NewNinjaGenerator exampleGraph)
             \<lparr>ruleId := 1,
              f := [RuleDecl ''rule0'', Description, RspfileLine,
                    RspfileContent (utf8Text 50001), CommandLine ''sh $out.rsp'']\<rparr>)"
proof -
  let ?n = "NewNinjaGenerator exampleGraph"
  let ?t = "utf8Text 50001"
  let ?rs = "[\<lparr>cmd = ?t, ignoreError = False\<rparr>]"
  have E: "gomaDir exampleEnv = []" by (simp add: exampleEnv_def)
  have n: "ruleId ?n = 0" "f ?n = []" by (simp_all add: NewNinjaGenerator_def)
  have dec: "decimal 0 = ''0''" by code_simp
  have len: "length ?t = 100002" by (simp add: utf8Text_facts(1))
  then have ne: "?t \<noteq> []" by (metis length_0_conv zero_neq_numeral)
  have pl: "\<forall>c \<in> set ?t. plainByte c" by (rule utf8Text_facts(3))
  have g: "genShellScript (gomaDir exampleEnv) (ccRe ?n) ?rs = (?t, False)"
    unfolding E by (rule genShellScript_plainBytes [OF ne pl])
  have d: "getDepfile ?t = Inr []" by (rule getDepfile_plainBytes [OF pl])
  have big: "ArgLenLimit < length ?t" by (simp add: ArgLenLimit_def len)
  have rs: "?rs \<noteq> []" by simp
  have r: "emitRule exampleEnv ?rs ?n =
      Inr (''rule0'', False,
           ?n\<lparr>ruleId := 1,
              f := [RuleDecl ''rule0'', Description, RspfileLine,
                    RspfileContent ?t, CommandLine ''sh $out.rsp'']\<rparr>)"
    using big by (simp add: emitRule_result [OF rs g d] n dec)
  show ?thesis
    by (intro conjI utf8Text_facts(2) len g r)
qed

section \<open>Properties of generateShell\<close>


lemma lineVar_exportLine [simp]: "lineVar (exportLine E e) = Some (fst e)"
  by (simp add: exportLine_def)





lemma linesFrom_line:
  "NEWLINE \<notin> set b \<Longrightarrow> linesFrom acc (b @ NEWLINE # rest) = (acc @ b) # linesFrom [] rest"
  by (induction b arbitrary: acc) auto










section \<open>Properties of emitNode\<close>

lemma fromDecimal_decimal: "fromDecimal (decimal n) = n"
proof (induction n rule: decimal.induct)
  case (1 n)
  show ?case
  proof (cases "n < 10")
    case True
    then show ?thesis
      by (subst decimal.simps) (simp add: fromDecimal_def)
  next
    case False
    have "decimal n = decimal (n div 10) @ [char_of (48 + n mod 10)]"
      using False by (subst decimal.simps) simp
    then have "fromDecimal (decimal n) =
        10 * fromDecimal (decimal (n div 10))
        + (of_char (char_of (48 + n mod 10) :: char) - 48)"
      by (simp add: fromDecimal_def)
    also have "\<dots> = 10 * (n div 10) + n mod 10"
      using "1.IH" [OF False] by simp
    finally show ?thesis by simp
  qed
qed

lemma decimal_inj: "decimal m = decimal n \<Longrightarrow> m = n"
  by (metis fromDecimal_decimal)

lemma buildOutputs_append [simp]:
  "buildOutputs (xs @ ys) = buildOutputs xs @ buildOutputs ys"
  by (simp add: buildOutputs_def)

lemma ruleNames_append [simp]: "ruleNames (xs @ ys) = ruleNames xs @ ruleNames ys"
  by (simp add: ruleNames_def)

lemma buildOutputs_simps [simp]:
  "buildOutputs [] = []"
  "buildOutputs (l # ls) = (case l of BuildStmt p r d \<Rightarrow> [p] | _ \<Rightarrow> []) @ buildOutputs ls"
  by (simp_all add: buildOutputs_def)

lemma ruleNames_simps [simp]:
  "ruleNames [] = []"
  "ruleNames (l # ls) = (case l of RuleDecl r \<Rightarrow> [r] | _ \<Rightarrow> []) @ ruleNames ls"
  by (simp_all add: ruleNames_def)

lemma upt_split: "a \<le> b \<Longrightarrow> [0..<a] @ [a..<b] = [0..<b]"
  by (metis le_add_diff_inverse upt_add_eq_append zero_le)

lemma length_buildsFor: "length (buildsFor p out) = count_list (buildOutputs out) p"
  by (induction out) (auto simp: buildsFor_def buildOutputs_def split: ninja_line.splits)

lemma length_rulesOf: "length (rulesOf p out) = count_list (buildOutputs out) p"
  by (induction out) (auto simp: rulesOf_def buildOutputs_def split: ninja_line.splits)

lemma count_list_distinct: "distinct xs \<Longrightarrow> count_list xs x \<le> 1"
  by (induction xs) (auto simp: count_list_0_iff)

lemma length_ruleBlocks_filter:
  "length (filter (\<lambda>l. case l of RuleDecl r \<Rightarrow> r \<in> S | _ \<Rightarrow> False) out) =
   length (filter (\<lambda>r. r \<in> S) (ruleNames out))"
  by (induction out) (auto simp: ruleNames_def split: ninja_line.splits)

lemma length_filter_singleton:
  assumes "distinct xs" and "length ys \<le> 1"
  shows "length (filter (\<lambda>r. r \<in> set ys) xs) \<le> 1"
proof (cases ys)
  case Nil
  then show ?thesis by simp
next
  case (Cons y zs)
  with assms(2) have "ys = [y]" by simp
  then have "filter (\<lambda>r. r \<in> set ys) xs = filter (\<lambda>r. r = y) xs" by simp
  also have "length \<dots> = count_list xs y"
    by (induction xs) auto
  finally show ?thesis using count_list_distinct [OF assms(1)] by simp
qed

lemma distinct_ruleNames:
  assumes "ruleNames out = map (\<lambda>i. ''rule'' @ decimal i) [0..<k]"
  shows "distinct (ruleNames out)"
proof -
  have "inj_on (\<lambda>i. ''rule'' @ decimal i) (set [0..<k])"
    by (rule inj_onI) (simp add: decimal_inj)
  then show ?thesis
    unfolding assms by (simp add: distinct_map)
qed

lemma emitted_at_most_once:
  assumes "emitted n"
  shows "length (buildsFor p (f n)) \<le> 1" and "length (ruleBlocksFor p (f n)) \<le> 1"
proof -
  from assms have d: "distinct (buildOutputs (f n))"
    and r: "ruleNames (f n) = map (\<lambda>i. ''rule'' @ decimal i) [0..<ruleId n]"
    by (simp_all add: emitted_def)
  show "length (buildsFor p (f n)) \<le> 1"
    unfolding length_buildsFor by (rule count_list_distinct [OF d])
  have "length (rulesOf p (f n)) \<le> 1"
    unfolding length_rulesOf by (rule count_list_distinct [OF d])
  with distinct_ruleNames [OF r] show "length (ruleBlocksFor p (f n)) \<le> 1"
    unfolding ruleBlocksFor_def length_ruleBlocks_filter
    by (rule length_filter_singleton)
qed

lemma done_fprintf [simp]: "done' (fprintf n l) = done' n"
  by (simp add: fprintf_def)

lemma emitRule_effect:
  assumes "emitRule E runners n = Inr (name, ulp, n')"
  shows "done' n' = done' n" and "buildOutputs (f n') = buildOutputs (f n)"
    and "ruleNames (f n') = ruleNames (f n) @ map (\<lambda>i. ''rule'' @ decimal i) [ruleId n..<ruleId n']"
    and "ruleId n \<le> ruleId n'"
proof -
  have "done' n' = done' n \<and> buildOutputs (f n') = buildOutputs (f n)
    \<and> ruleNames (f n') = ruleNames (f n) @ map (\<lambda>i. ''rule'' @ decimal i) [ruleId n..<ruleId n']
    \<and> ruleId n \<le> ruleId n'"
  proof (cases "runners = []")
    case True
    with assms have "n' = n" by (simp add: emitRule_def)
    then show ?thesis by simp
  next
    case False
    obtain ss u where g: "genShellScript (gomaDir E) (ccRe n) runners = (ss, u)"
      by (cases "genShellScript (gomaDir E) (ccRe n) runners")
    from assms False g obtain depfile where d: "getDepfile ss = Inr depfile"
      by (cases "getDepfile ss") (simp_all add: emitRule_def genRuleName_def)
    have "Inr (name, ulp, n') =
        (Inr (''rule'' @ decimal (ruleId n), u,
          n\<lparr>ruleId := ruleId n + 1,
            f := f n @ [RuleDecl (''rule'' @ decimal (ruleId n)), Description]
                 @ (if depfile \<noteq> [] then [DepfileLine depfile] else [])
                 @ (if ArgLenLimit < length ss
                    then [RspfileLine, RspfileContent ss, CommandLine ''sh $out.rsp'']
                    else [CommandLine ss])\<rparr>)
          :: error + string \<times> bool \<times> NinjaGenerator)"
      by (rule trans [OF assms [symmetric] emitRule_result [OF False g d]])
    then have n': "n' = n\<lparr>ruleId := ruleId n + 1,
            f := f n @ [RuleDecl (''rule'' @ decimal (ruleId n)), Description]
                 @ (if depfile \<noteq> [] then [DepfileLine depfile] else [])
                 @ (if ArgLenLimit < length ss
                    then [RspfileLine, RspfileContent ss, CommandLine ''sh $out.rsp'']
                    else [CommandLine ss])\<rparr>"
      by (simp only: sum.inject prod.inject)
    show ?thesis
      unfolding n' by (simp add: buildOutputs_def ruleNames_def)
  qed
  then show "done' n' = done' n" and "buildOutputs (f n') = buildOutputs (f n)"
    and "ruleNames (f n') = ruleNames (f n) @ map (\<lambda>i. ''rule'' @ decimal i) [ruleId n..<ruleId n']"
    and "ruleId n \<le> ruleId n'"
    by simp_all
qed

lemma emitStatements_effect:
  assumes "emitStatements E h a node n = Inr n'"
  shows "done' n' = done' n" and "buildOutputs (f n') = buildOutputs (f n) @ [Output node]"
    and "ruleNames (f n') = ruleNames (f n) @ map (\<lambda>i. ''rule'' @ decimal i) [ruleId n..<ruleId n']"
    and "ruleId n \<le> ruleId n'"
proof -
  from assms obtain name ulp n1 dep where
    r: "emitRule E (createRunners E a) n = Inr (name, ulp, n1)" and
    n': "n' = (if ulp then fprintf (emitBuild n1 (Output node) name dep) PoolLine
               else emitBuild n1 (Output node) name dep)"
    by (auto simp: emitStatements_def Let_def split: sum.splits)
  note e = emitRule_effect [OF r]
  show "done' n' = done' n"
    by (simp add: n' emitBuild_def e(1))
  show "buildOutputs (f n') = buildOutputs (f n) @ [Output node]"
    by (simp add: n' emitBuild_def e(2))
  have "ruleId n' = ruleId n1" by (simp add: n' emitBuild_def)
  then show "ruleNames (f n') = ruleNames (f n) @ map (\<lambda>i. ''rule'' @ decimal i) [ruleId n..<ruleId n']"
    by (simp add: n' emitBuild_def e(3))
  show "ruleId n \<le> ruleId n'"
    using e(4) by (simp add: n' emitBuild_def)
qed

lemma emitted_mark:
  assumes "emitted n"
  shows "emitted (n\<lparr>done' := (done' n)(p := True)\<rparr>)"
  using assms by (simp add: emitted_def)

lemma emitStatements_emitted:
  assumes "emitted n" and "\<not> done' n (Output node)"
    and "emitStatements E h a node (n\<lparr>done' := (done' n)(Output node := True)\<rparr>) = Inr n'"
  shows "emitted n'"
proof -
  let ?x = "n\<lparr>done' := (done' n)(Output node := True)\<rparr>"
  note e = emitStatements_effect [OF assms(3)]
  from assms(1) have built: "\<forall>p \<in> set (buildOutputs (f n)). done' n p"
    and d: "distinct (buildOutputs (f n))"
    and r: "ruleNames (f n) = map (\<lambda>i. ''rule'' @ decimal i) [0..<ruleId n]"
    by (simp_all add: emitted_def)
  from built assms(2) have new: "Output node \<notin> set (buildOutputs (f n))" by blast
  have 1: "\<forall>p \<in> set (buildOutputs (f n')). done' n' p"
    using built by (simp add: e(1) e(2))
  have 2: "distinct (buildOutputs (f n'))"
    using d new by (simp add: e(2))
  have "ruleNames (f n') =
      map (\<lambda>i. ''rule'' @ decimal i) ([0..<ruleId n] @ [ruleId n..<ruleId n'])"
    using e(3) r by simp
  also have "[0..<ruleId n] @ [ruleId n..<ruleId n'] = [0..<ruleId n']"
    using e(4) by (simp add: upt_split)
  finally have 3: "ruleNames (f n') = map (\<lambda>i. ''rule'' @ decimal i) [0..<ruleId n']" .
  from 1 2 3 show ?thesis by (simp add: emitted_def)
qed

lemma emitNode_emitDeps_emitted:
  "emitNode E h a n = Inr n' \<Longrightarrow> emitted n \<Longrightarrow> emitted n'"
  "emitDeps E h ds n = Inr n' \<Longrightarrow> emitted n \<Longrightarrow> emitted n'"
proof (induction E h a n and E h ds n arbitrary: n' and n' rule: emitNode_emitDeps.induct)
  case (1 E h a n)
  from "1.prems"(1) obtain node where node: "deref h a = Inr node"
    by (subst (asm) emitNode.simps) (auto split: sum.splits)
  show ?case
  proof (cases "done' n (Output node)")
    case True
    with "1.prems" node show ?thesis
      by (subst (asm) emitNode.simps) simp
  next
    case False
    let ?x = "n\<lparr>done' := (done' n)(Output node := True)\<rparr>"
    show ?thesis
    proof (cases "Cmds node = [] \<and> Deps node = [] \<and> \<not> IsPhony node")
      case True
      with "1.prems"(1) node False have "n' = ?x"
        by (subst (asm) emitNode.simps) simp
      with "1.prems"(2) show ?thesis by (simp add: emitted_mark)
    next
      case nonleaf: False
      from "1.prems"(1) node False nonleaf obtain n2 where
        n2: "emitStatements E h a node ?x = Inr n2" and
        deps: "emitDeps E h (Deps node) n2 = Inr n'"
        by (subst (asm) emitNode.simps) (auto simp: Let_def split: sum.splits)
      have "emitted n2"
        by (rule emitStatements_emitted [OF "1.prems"(2) False n2])
      with "1.IH" [OF node False refl nonleaf n2 deps] show ?thesis .
    qed
  qed
next
  case (2 E h n)
  then show ?case by simp
next
  case (3 E h d ds n)
  from "3.prems"(1) obtain n1 where
    n1: "emitNode E h d n = Inr n1" and rest: "emitDeps E h ds n1 = Inr n'"
    by (auto split: sum.splits)
  have "emitted n1" by (rule "3.IH"(1) [OF n1 "3.prems"(2)])
  with "3.IH"(2) [OF n1 rest] show ?case .
qed

lemma generateNinja_emitted:
  assumes "generateNinja E h (NewNinjaGenerator g) = Inr n'"
  shows "emitted n'"
proof -
  let ?n = "NewNinjaGenerator g\<lparr>f := []\<rparr>"
  let ?n0 = "(if gomaDir E \<noteq> []
               then fprintf (fprintf (fprintf (fprintf ?n GeneratedBy) EmptyLine) PoolDecl)
                      (PoolDepth (NumCPU E))
               else fprintf (fprintf ?n GeneratedBy) EmptyLine)"
  from assms have run: "emitDeps E h (nodes ?n0) ?n0 = Inr n'"
    by (simp add: generateNinja_def Let_def fprintf_def split: if_splits)
  have "emitted ?n0"
    by (simp add: emitted_def NewNinjaGenerator_def fprintf_def buildOutputs_def ruleNames_def)
  with run show ?thesis by (rule emitNode_emitDeps_emitted(2))
qed

lemma renderNinja_text: "renderNinja l = ninjaLineText l @ [NEWLINE]"
  by (cases l) simp_all

lemma textLines_ninja:
  assumes "\<forall>l \<in> set out. NEWLINE \<notin> set (ninjaLineText l)"
  shows "textLines (ninjaText out) = map ninjaLineText out"
  unfolding textLines_def ninjaText_def
  using assms
proof (induction out)
  case Nil
  show ?case by simp
next
  case (Cons l out)
  then have nl: "NEWLINE \<notin> set (ninjaLineText l)" and
    rest: "linesFrom [] (concat (map renderNinja out)) = map ninjaLineText out"
    by simp_all
  have "linesFrom [] (concat (map renderNinja (l # out))) =
        linesFrom [] (ninjaLineText l @ NEWLINE # concat (map renderNinja out))"
    by (simp add: renderNinja_text)
  also have "\<dots> = ([] @ ninjaLineText l) # linesFrom [] (concat (map renderNinja out))"
    by (rule linesFrom_line [OF nl])
  finally show ?case by (simp add: rest)
qed

lemma takeWhile_until:
  assumes "c \<notin> set xs"
  shows "takeWhile (\<lambda>x. x \<noteq> c) (xs @ c # ys) = xs"
  using assms by (induction xs) auto

lemma takeWhile_word:
  assumes "c \<notin> set xs" and "ys = [] \<or> hd ys = c"
  shows "takeWhile (\<lambda>x. x \<noteq> c) (xs @ ys) = xs"
proof (cases ys)
  case Nil
  with assms(1) show ?thesis by (simp add: takeWhile_eq_all_conv) blast
next
  case (Cons y zs)
  with assms(2) have "ys = c # zs" by simp
  with assms(1) show ?thesis by (simp add: takeWhile_until)
qed

lemma buildLine_iff:
  assumes "case l of BuildStmt q r d \<Rightarrow> CHR '':'' \<notin> set q | _ \<Rightarrow> True"
  shows "(prefix ''build '' (ninjaLineText l)
          \<and> takeWhile (\<lambda>c. c \<noteq> CHR '':'') (drop 6 (ninjaLineText l)) = p)
         = (case l of BuildStmt q r d \<Rightarrow> q = p | _ \<Rightarrow> False)"
proof (cases l)
  case (BuildStmt q r d)
  with assms have "CHR '':'' \<notin> set q" by simp
  then have "takeWhile (\<lambda>c. c \<noteq> CHR '':'') (q @ CHR '':'' # CHR '' '' # r @ d) = q"
    by (rule takeWhile_until)
  then show ?thesis by (simp add: BuildStmt)
qed simp_all

lemma ruleLine_iff:
  "(prefix ''rule '' (ninjaLineText l) \<and> drop 5 (ninjaLineText l) \<in> S)
   = (case l of RuleDecl r \<Rightarrow> r \<in> S | _ \<Rightarrow> False)"
  by (cases l) simp_all

lemma filter_map_text:
  assumes "\<forall>l \<in> set out. P (g l) = Q l"
  shows "filter P (map g out) = map g (filter Q out)"
  using assms by (induction out) auto

lemma textBuildsFor_ninja:
  assumes "ninjaClean out"
  shows "textBuildsFor p (ninjaText out) = map ninjaLineText (buildsFor p out)"
proof -
  from assms have nl: "\<forall>l \<in> set out. NEWLINE \<notin> set (ninjaLineText l)"
    and col: "\<forall>l \<in> set out. case l of BuildStmt q r d \<Rightarrow> CHR '':'' \<notin> set q | _ \<Rightarrow> True"
    by (simp_all add: ninjaClean_def)
  have "\<forall>l \<in> set out.
      (prefix ''build '' (ninjaLineText l)
        \<and> takeWhile (\<lambda>c. c \<noteq> CHR '':'') (drop 6 (ninjaLineText l)) = p)
      = (case l of BuildStmt q r d \<Rightarrow> q = p | _ \<Rightarrow> False)"
    using col buildLine_iff by blast
  then show ?thesis
    unfolding textBuildsFor_def buildsFor_def textLines_ninja [OF nl]
    by (rule filter_map_text)
qed

lemma drop_build:
  "drop (length p + 8) (''build '' @ p @ '': '' @ rest) = rest"
proof -
  have "''build '' @ p @ '': '' @ rest = (''build '' @ p @ '': '') @ rest" by simp
  moreover have "length (''build '' @ p @ '': '') = length p + 8" by simp
  ultimately show ?thesis by (metis append_eq_conv_conj)
qed

lemma textRulesOf_ninja:
  assumes "ninjaClean out" and "shapedBuilds out"
  shows "textRulesOf p (ninjaText out) = rulesOf p out"
proof -
  have "map (\<lambda>t. takeWhile (\<lambda>c. c \<noteq> CHR '' '') (drop (length p + 8) t))
          (map ninjaLineText (buildsFor p out)) = rulesOf p out"
    using assms(2)
  proof (induction out)
    case Nil
    show ?case by (simp add: buildsFor_def rulesOf_def)
  next
    case (Cons l out)
    then have rest: "map (\<lambda>t. takeWhile (\<lambda>c. c \<noteq> CHR '' '') (drop (length p + 8) t))
          (map ninjaLineText (buildsFor p out)) = rulesOf p out"
      and sh: "case l of BuildStmt q r d \<Rightarrow> CHR '' '' \<notin> set r \<and> (d = [] \<or> hd d = CHR '' '')
                | _ \<Rightarrow> True"
      by (simp_all add: shapedBuilds_def)
    show ?case
    proof (cases l)
      case (BuildStmt q r d)
      with sh have w: "takeWhile (\<lambda>c. c \<noteq> CHR '' '') (r @ d) = r"
        by (simp add: takeWhile_word)
      have "q = p \<Longrightarrow>
          takeWhile (\<lambda>c. c \<noteq> CHR '' '') (drop (length p + 8) (ninjaLineText l)) = r"
        using w drop_build [of p "r @ d"] by (simp add: BuildStmt)
      then show ?thesis
        using rest by (simp add: BuildStmt buildsFor_def rulesOf_def del: ninjaLineText.simps)
    qed (use rest in \<open>simp_all add: buildsFor_def rulesOf_def\<close>)
  qed
  then show ?thesis
    unfolding textRulesOf_def textBuildsFor_ninja [OF assms(1)] .
qed

lemma textRuleBlocksFor_ninja:
  assumes "ninjaClean out" and "shapedBuilds out"
  shows "textRuleBlocksFor p (ninjaText out) = map ninjaLineText (ruleBlocksFor p out)"
proof -
  from assms(1) have nl: "\<forall>l \<in> set out. NEWLINE \<notin> set (ninjaLineText l)"
    by (simp add: ninjaClean_def)
  have "\<forall>l \<in> set out.
      (prefix ''rule '' (ninjaLineText l) \<and> drop 5 (ninjaLineText l) \<in> set (rulesOf p out))
      = (case l of RuleDecl r \<Rightarrow> r \<in> set (rulesOf p out) | _ \<Rightarrow> False)"
    using ruleLine_iff by blast
  then show ?thesis
    unfolding textRuleBlocksFor_def ruleBlocksFor_def textLines_ninja [OF nl]
      textRulesOf_ninja [OF assms]
    by (rule filter_map_text)
qed

lemma decimal_no_space: "CHR '' '' \<notin> set (decimal k)"
proof (induction k rule: decimal.induct)
  case (1 n)
  have digit: "CHR '' '' \<noteq> char_of (48 + d)" if "d < 10" for d :: nat
  proof
    assume "CHR '' '' = char_of (48 + d)"
    then have "of_char (char_of (48 + d)) = (of_char (CHR '' '') :: nat)" by simp
    with that show False by simp
  qed
  show ?case
  proof (cases "n < 10")
    case True
    then show ?thesis by (subst decimal.simps) (simp add: digit)
  next
    case False
    have "n mod 10 < 10" by simp
    with False "1.IH" show ?thesis
      by (subst decimal.simps) (simp add: digit)
  qed
qed

lemma getDepString_shape:
  assumes "getDepString h node = Inr d"
  shows "d = [] \<or> hd d = CHR '' ''"
  using assms by (auto simp: getDepString_def split: sum.splits if_splits)

lemma shapedBuilds_append [simp]:
  "shapedBuilds (xs @ ys) \<longleftrightarrow> shapedBuilds xs \<and> shapedBuilds ys"
  by (auto simp: shapedBuilds_def)

lemma emitRule_shaped:
  assumes "emitRule E runners n = Inr (name, ulp, n')"
  shows "CHR '' '' \<notin> set name" and "shapedBuilds (f n') = shapedBuilds (f n)"
proof -
  have "CHR '' '' \<notin> set name \<and> shapedBuilds (f n') = shapedBuilds (f n)"
  proof (cases "runners = []")
    case True
    with assms have "n' = n" and "name = ''phony''" by (simp_all add: emitRule_def)
    then show ?thesis by simp
  next
    case False
    obtain ss u where g: "genShellScript (gomaDir E) (ccRe n) runners = (ss, u)"
      by (cases "genShellScript (gomaDir E) (ccRe n) runners")
    from assms False g obtain depfile where d: "getDepfile ss = Inr depfile"
      by (cases "getDepfile ss") (simp_all add: emitRule_def genRuleName_def)
    have "Inr (name, ulp, n') =
        (Inr (''rule'' @ decimal (ruleId n), u,
          n\<lparr>ruleId := ruleId n + 1,
            f := f n @ [RuleDecl (''rule'' @ decimal (ruleId n)), Description]
                 @ (if depfile \<noteq> [] then [DepfileLine depfile] else [])
                 @ (if ArgLenLimit < length ss
                    then [RspfileLine, RspfileContent ss, CommandLine ''sh $out.rsp'']
                    else [CommandLine ss])\<rparr>)
          :: error + string \<times> bool \<times> NinjaGenerator)"
      by (rule trans [OF assms [symmetric] emitRule_result [OF False g d]])
    then have name: "name = ''rule'' @ decimal (ruleId n)"
      and n': "n' = n\<lparr>ruleId := ruleId n + 1,
            f := f n @ [RuleDecl (''rule'' @ decimal (ruleId n)), Description]
                 @ (if depfile \<noteq> [] then [DepfileLine depfile] else [])
                 @ (if ArgLenLimit < length ss
                    then [RspfileLine, RspfileContent ss, CommandLine ''sh $out.rsp'']
                    else [CommandLine ss])\<rparr>"
      by (simp_all only: sum.inject prod.inject)
    have "shapedBuilds (f n') = shapedBuilds (f n)"
      unfolding n' by (auto simp: shapedBuilds_def)
    then show ?thesis by (simp add: name decimal_no_space)
  qed
  then show "CHR '' '' \<notin> set name" and "shapedBuilds (f n') = shapedBuilds (f n)"
    by simp_all
qed

lemma emitStatements_shaped:
  assumes "emitStatements E h a node n = Inr n'" and "shapedBuilds (f n)"
  shows "shapedBuilds (f n')"
proof -
  from assms(1) obtain name ulp n1 dep where
    r: "emitRule E (createRunners E a) n = Inr (name, ulp, n1)" and
    dep: "getDepString h node = Inr dep" and
    n': "n' = (if ulp then fprintf (emitBuild n1 (Output node) name dep) PoolLine
               else emitBuild n1 (Output node) name dep)"
    by (auto simp: emitStatements_def Let_def split: sum.splits)
  note e = emitRule_shaped [OF r]
  from e(2) assms(2) have "shapedBuilds (f n1)" by simp
  moreover have "shapedBuilds [BuildStmt (Output node) name dep, PoolLine]"
    and "shapedBuilds [BuildStmt (Output node) name dep]"
    using e(1) getDepString_shape [OF dep] by (simp_all add: shapedBuilds_def)
  ultimately show ?thesis
    by (simp add: n' emitBuild_def fprintf_def)
qed

lemma emitNode_emitDeps_shaped:
  "emitNode E h a n = Inr n' \<Longrightarrow> shapedBuilds (f n) \<Longrightarrow> shapedBuilds (f n')"
  "emitDeps E h ds n = Inr n' \<Longrightarrow> shapedBuilds (f n) \<Longrightarrow> shapedBuilds (f n')"
proof (induction E h a n and E h ds n arbitrary: n' and n' rule: emitNode_emitDeps.induct)
  case (1 E h a n)
  from "1.prems"(1) obtain node where node: "deref h a = Inr node"
    by (subst (asm) emitNode.simps) (auto split: sum.splits)
  show ?case
  proof (cases "done' n (Output node)")
    case True
    with "1.prems" node show ?thesis
      by (subst (asm) emitNode.simps) simp
  next
    case False
    let ?x = "n\<lparr>done' := (done' n)(Output node := True)\<rparr>"
    show ?thesis
    proof (cases "Cmds node = [] \<and> Deps node = [] \<and> \<not> IsPhony node")
      case True
      with "1.prems"(1) node False have "n' = ?x"
        by (subst (asm) emitNode.simps) simp
      with "1.prems"(2) show ?thesis by simp
    next
      case nonleaf: False
      from "1.prems"(1) node False nonleaf obtain n2 where
        n2: "emitStatements E h a node ?x = Inr n2" and
        deps: "emitDeps E h (Deps node) n2 = Inr n'"
        by (subst (asm) emitNode.simps) (auto simp: Let_def split: sum.splits)
      have "shapedBuilds (f ?x)" using "1.prems"(2) by simp
      with n2 have "shapedBuilds (f n2)" by (rule emitStatements_shaped)
      with "1.IH" [OF node False refl nonleaf n2 deps] show ?thesis .
    qed
  qed
next
  case (2 E h n)
  then show ?case by simp
next
  case (3 E h d ds n)
  from "3.prems"(1) obtain n1 where
    n1: "emitNode E h d n = Inr n1" and rest: "emitDeps E h ds n1 = Inr n'"
    by (auto split: sum.splits)
  have "shapedBuilds (f n1)" by (rule "3.IH"(1) [OF n1 "3.prems"(2)])
  with "3.IH"(2) [OF n1 rest] show ?case .
qed

lemma generateNinja_shaped:
  assumes "generateNinja E h (NewNinjaGenerator g) = Inr n'"
  shows "shapedBuilds (f n')"
proof -
  let ?n = "NewNinjaGenerator g\<lparr>f := []\<rparr>"
  let ?n0 = "(if gomaDir E \<noteq> []
               then fprintf (fprintf (fprintf (fprintf ?n GeneratedBy) EmptyLine) PoolDecl)
                      (PoolDepth (NumCPU E))
               else fprintf (fprintf ?n GeneratedBy) EmptyLine)"
  from assms have run: "emitDeps E h (nodes ?n0) ?n0 = Inr n'"
    by (simp add: generateNinja_def Let_def fprintf_def split: if_splits)
  have "shapedBuilds (f ?n0)"
    by (simp add: shapedBuilds_def NewNinjaGenerator_def fprintf_def)
  with run show ?thesis by (rule emitNode_emitDeps_shaped(2))
qed

lemma emitNode_done_noop:
  assumes "deref h a = Inr node" and "done' n (Output node)"
  shows "emitNode E h a n = Inr n"
  using assms by (subst emitNode.simps) simp

text \<open>
  Claim C1. In the build.ninja of a run of \<open>generateNinja\<close>, and so of
  \<open>GenerateNinja\<close>, that does not panic, every output path has at most one build
  statement and at most one rule block (a rule block of an output path is one that
  declares the rule its build statement names), whatever the graph is and however many
  nodes list a node among their dependencies. This holds of the lines that were written
  and, when no text written into a line holds a newline and no output path holds a
  colon, of the lines of the text of the file, which are then the lines that were
  written. On a node whose output path is done, \<open>emitNode\<close> returns the generator as
  it is.
\<close>

theorem emitNode_at_most_once:
  "(generateNinja E h (NewNinjaGenerator g) = Inr n' \<longrightarrow>
      length (buildsFor p (f n')) \<le> 1 \<and> length (ruleBlocksFor p (f n')) \<le> 1)
   \<and> (GenerateNinja E h g = Inr (sh, out) \<longrightarrow>
      length (buildsFor p out) \<le> 1 \<and> length (ruleBlocksFor p out) \<le> 1)
   \<and> (GenerateNinja E h g = Inr (sh, out) \<and> ninjaClean out \<longrightarrow>
      textLines (ninjaText out) = map ninjaLineText out
      \<and> length (textBuildsFor p (ninjaText out)) \<le> 1
      \<and> length (textRuleBlocksFor p (ninjaText out)) \<le> 1)
   \<and> (deref h a = Inr node \<and> done' n (Output node) \<longrightarrow> emitNode E h a n = Inr n)"
proof (intro conjI impI)
  assume "generateNinja E h (NewNinjaGenerator g) = Inr n'"
  then have "emitted n'" by (rule generateNinja_emitted)
  then show "length (buildsFor p (f n')) \<le> 1" and "length (ruleBlocksFor p (f n')) \<le> 1"
    by (rule emitted_at_most_once)+
next
  assume "GenerateNinja E h g = Inr (sh, out)"
  then obtain n' where "generateNinja E h (NewNinjaGenerator g) = Inr n'" and "out = f n'"
    by (auto simp: GenerateNinja_def Let_def split: sum.splits)
  then have e: "emitted n'" and out: "out = f n'" by (simp_all add: generateNinja_emitted)
  show "length (buildsFor p out) \<le> 1" and "length (ruleBlocksFor p out) \<le> 1"
    unfolding out by (rule emitted_at_most_once [OF e])+
next
  assume a: "GenerateNinja E h g = Inr (sh, out) \<and> ninjaClean out"
  then obtain n' where run: "generateNinja E h (NewNinjaGenerator g) = Inr n'"
    and out: "out = f n'"
    by (auto simp: GenerateNinja_def Let_def split: sum.splits)
  from a have clean: "ninjaClean out" by simp
  then have nl: "\<forall>l \<in> set out. NEWLINE \<notin> set (ninjaLineText l)"
    by (simp add: ninjaClean_def)
  have shaped: "shapedBuilds out"
    unfolding out by (rule generateNinja_shaped [OF run])
  note e = emitted_at_most_once [OF generateNinja_emitted [OF run], folded out]
  show "textLines (ninjaText out) = map ninjaLineText out"
    by (rule textLines_ninja [OF nl])
  show "length (textBuildsFor p (ninjaText out)) \<le> 1"
    using e(1) [of p] by (simp add: textBuildsFor_ninja [OF clean])
  show "length (textRuleBlocksFor p (ninjaText out)) \<le> 1"
    using e(2) [of p] by (simp add: textRuleBlocksFor_ninja [OF clean shaped])
next
  assume "deref h a = Inr node \<and> done' n (Output node)"
  then show "emitNode E h a n = Inr n"
    by (simp add: emitNode_done_noop)
qed

lemma diamond_run:
  "GenerateNinja diamondEnv diamondStore exampleGraph =
     Inr ([Shebang ''/bin/sh'', ExecNinja],
          [GeneratedBy, EmptyLine, BuildStmt ''all'' ''phony'' '' a.o b.o'',
           RuleDecl ''rule0'', Description, CommandLine ''cc -c a.c -o a.o'',
           BuildStmt ''a.o'' ''rule0'' '' || gen.h'',
           RuleDecl ''rule1'', Description, CommandLine ''./gen > gen.h'',
           BuildStmt ''gen.h'' ''rule1'' [],
           RuleDecl ''rule2'', Description, CommandLine ''cc -c b.c -o b.o'',
           BuildStmt ''b.o'' ''rule2'' '' || gen.h''])"
proof -
  let ?all = "\<lparr>Output = ''all'', Cmds = [], Deps = [1, 2], IsOrderOnly = False, IsPhony = True\<rparr>"
  let ?a = "\<lparr>Output = ''a.o'', Cmds = [''cc -c a.c -o a.o''], Deps = [3], IsOrderOnly = False,
       IsPhony = False\<rparr>"
  let ?b = "\<lparr>Output = ''b.o'', Cmds = [''cc -c b.c -o b.o''], Deps = [3], IsOrderOnly = False,
       IsPhony = False\<rparr>"
  let ?g = "\<lparr>Output = ''gen.h'', Cmds = [''./gen > gen.h''], Deps = [], IsOrderOnly = True,
       IsPhony = False\<rparr>"
  have sh: "generateShell diamondEnv (NewNinjaGenerator exampleGraph) =
      Inr [Shebang ''/bin/sh'', ExecNinja]"
    by code_simp
  have env: "createOk diamondEnv ''build.ninja''" "gomaDir diamondEnv = []"
    "createRunners diamondEnv 0 = []"
    "createRunners diamondEnv 1 = [\<lparr>cmd = ''cc -c a.c -o a.o'', ignoreError = False\<rparr>]"
    "createRunners diamondEnv 2 = [\<lparr>cmd = ''cc -c b.c -o b.o'', ignoreError = False\<rparr>]"
    "createRunners diamondEnv 3 = [\<lparr>cmd = ''./gen > gen.h'', ignoreError = False\<rparr>]"
    by (simp_all add: diamondEnv_def exampleEnv_def)
  have store: "deref diamondStore 0 = Inr ?all" "deref diamondStore 1 = Inr ?a"
    "deref diamondStore 2 = Inr ?b" "deref diamondStore 3 = Inr ?g"
    by (simp_all add: diamondStore_def deref_def)
  have deps: "getDepString diamondStore ?all = Inr '' a.o b.o''"
    "getDepString diamondStore ?a = Inr '' || gen.h''"
    "getDepString diamondStore ?b = Inr '' || gen.h''"
    "getDepString diamondStore ?g = Inr []"
    by code_simp+
  have chains:
    "genShellScript [] ccReMatchString [\<lparr>cmd = ''cc -c a.c -o a.o'', ignoreError = False\<rparr>] =
       (''cc -c a.c -o a.o'', False)"
    "genShellScript [] ccReMatchString [\<lparr>cmd = ''cc -c b.c -o b.o'', ignoreError = False\<rparr>] =
       (''cc -c b.c -o b.o'', False)"
    "genShellScript [] ccReMatchString [\<lparr>cmd = ''./gen > gen.h'', ignoreError = False\<rparr>] =
       (''./gen > gen.h'', False)"
    by code_simp+
  have depfiles: "getDepfile ''cc -c a.c -o a.o'' = Inr []"
    "getDepfile ''cc -c b.c -o b.o'' = Inr []" "getDepfile ''./gen > gen.h'' = Inr []"
    by code_simp+
  have dec: "decimal 0 = ''0''" "decimal (Suc 0) = ''1''" "decimal (Suc (Suc 0)) = ''2''"
    by code_simp+
  have g: "nodes (NewNinjaGenerator exampleGraph) = [0]"
    by (simp add: NewNinjaGenerator_def exampleGraph_def)
  have G: "GenerateNinja diamondEnv diamondStore exampleGraph =
      (case generateNinja diamondEnv diamondStore (NewNinjaGenerator exampleGraph) of
         Inl err \<Rightarrow> Inl err
       | Inr n \<Rightarrow> Inr ([Shebang ''/bin/sh'', ExecNinja], f n))"
    by (simp only: GenerateNinja_def Let_def sh sum.case)
  have "\<exists>n. generateNinja diamondEnv diamondStore (NewNinjaGenerator exampleGraph) = Inr n
      \<and> f n = [GeneratedBy, EmptyLine, BuildStmt ''all'' ''phony'' '' a.o b.o'',
           RuleDecl ''rule0'', Description, CommandLine ''cc -c a.c -o a.o'',
           BuildStmt ''a.o'' ''rule0'' '' || gen.h'',
           RuleDecl ''rule1'', Description, CommandLine ''./gen > gen.h'',
           BuildStmt ''gen.h'' ''rule1'' [],
           RuleDecl ''rule2'', Description, CommandLine ''cc -c b.c -o b.o'',
           BuildStmt ''b.o'' ''rule2'' '' || gen.h'']"
    by (simp add: generateNinja_header ninjaHeader_def Let_def
        NewNinjaGenerator_def exampleGraph_def env [unfolded One_nat_def]
        emitNode.simps store [unfolded One_nat_def] emitStatements_def emitRule_def
        genRuleName_def emitBuild_def fprintf_def ArgLenLimit_def
        deps [unfolded One_nat_def] chains depfiles dec)
  then show ?thesis
    unfolding G by auto
qed

theorem emitNode_at_most_once_witness:
  "GenerateNinja diamondEnv diamondStore exampleGraph =
     Inr ([Shebang ''/bin/sh'', ExecNinja],
          [GeneratedBy, EmptyLine, BuildStmt ''all'' ''phony'' '' a.o b.o'',
           RuleDecl ''rule0'', Description, CommandLine ''cc -c a.c -o a.o'',
           BuildStmt ''a.o'' ''rule0'' '' || gen.h'',
           RuleDecl ''rule1'', Description, CommandLine ''./gen > gen.h'',
           BuildStmt ''gen.h'' ''rule1'' [],
           RuleDecl ''rule2'', Description, CommandLine ''cc -c b.c -o b.o'',
           BuildStmt ''b.o'' ''rule2'' '' || gen.h''])
   \<and> length (buildsFor ''gen.h''
         (snd (projr (GenerateNinja diamondEnv diamondStore exampleGraph)))) \<le> 1
   \<and> length (ruleBlocksFor ''gen.h''
         (snd (projr (GenerateNinja diamondEnv diamondStore exampleGraph)))) \<le> 1
   \<and> buildsFor ''gen.h'' (snd (projr (GenerateNinja diamondEnv diamondStore exampleGraph))) =
       [BuildStmt ''gen.h'' ''rule1'' []]
   \<and> ruleBlocksFor ''gen.h''
         (snd (projr (GenerateNinja diamondEnv diamondStore exampleGraph))) =
       [RuleDecl ''rule1'']
   \<and> ninjaClean (snd (projr (GenerateNinja diamondEnv diamondStore exampleGraph)))
   \<and> length (textBuildsFor ''gen.h''
         (ninjaText (snd (projr (GenerateNinja diamondEnv diamondStore exampleGraph))))) \<le> 1
   \<and> length (textRuleBlocksFor ''gen.h''
         (ninjaText (snd (projr (GenerateNinja diamondEnv diamondStore exampleGraph))))) \<le> 1
   \<and> textBuildsFor ''gen.h''
         (ninjaText (snd (projr (GenerateNinja diamondEnv diamondStore exampleGraph)))) =
       [''build gen.h: rule1'']
   \<and> textRuleBlocksFor ''gen.h''
         (ninjaText (snd (projr (GenerateNinja diamondEnv diamondStore exampleGraph)))) =
       [''rule rule1'']
   \<and> emitNode diamondEnv diamondStore 3
         ((NewNinjaGenerator exampleGraph)\<lparr>done' := (\<lambda>p. p = ''gen.h'')\<rparr>) =
       Inr ((NewNinjaGenerator exampleGraph)\<lparr>done' := (\<lambda>p. p = ''gen.h'')\<rparr>)"
proof -
  let ?out = "[GeneratedBy, EmptyLine, BuildStmt ''all'' ''phony'' '' a.o b.o'',
           RuleDecl ''rule0'', Description, CommandLine ''cc -c a.c -o a.o'',
           BuildStmt ''a.o'' ''rule0'' '' || gen.h'',
           RuleDecl ''rule1'', Description, CommandLine ''./gen > gen.h'',
           BuildStmt ''gen.h'' ''rule1'' [],
           RuleDecl ''rule2'', Description, CommandLine ''cc -c b.c -o b.o'',
           BuildStmt ''b.o'' ''rule2'' '' || gen.h'']"
  let ?sh = "[Shebang ''/bin/sh'', ExecNinja]"
  let ?n = "(NewNinjaGenerator exampleGraph)\<lparr>done' := (\<lambda>p. p = ''gen.h'')\<rparr>"
  let ?gen = "\<lparr>Output = ''gen.h'', Cmds = [''./gen > gen.h''], Deps = [], IsOrderOnly = True,
       IsPhony = False\<rparr>"
  have run: "GenerateNinja diamondEnv diamondStore exampleGraph = Inr (?sh, ?out)"
    by (rule diamond_run)
  have visited: "deref diamondStore 3 = Inr ?gen \<and> done' ?n (Output ?gen)"
    by (simp add: diamondStore_def deref_def)
  have clean: "ninjaClean ?out"
    by (simp add: ninjaClean_def)
  note T = emitNode_at_most_once
    [where E = diamondEnv and h = diamondStore and g = exampleGraph and sh = ?sh
       and out = ?out and p = "''gen.h''" and a = 3 and node = ?gen and n = ?n]
  from T have "length (buildsFor ''gen.h'' ?out) \<le> 1
      \<and> length (ruleBlocksFor ''gen.h'' ?out) \<le> 1"
    by (rule mp [OF conjunct1 [OF conjunct2] run])
  then have 1: "length (buildsFor ''gen.h'' ?out) \<le> 1"
    and 2: "length (ruleBlocksFor ''gen.h'' ?out) \<le> 1"
    by (rule conjunct1, rule conjunct2)
  from T have "textLines (ninjaText ?out) = map ninjaLineText ?out
      \<and> length (textBuildsFor ''gen.h'' (ninjaText ?out)) \<le> 1
      \<and> length (textRuleBlocksFor ''gen.h'' (ninjaText ?out)) \<le> 1"
    by (rule mp [OF conjunct1 [OF conjunct2 [OF conjunct2]] conjI [OF run clean]])
  then have lines: "textLines (ninjaText ?out) = map ninjaLineText ?out"
    and 6: "length (textBuildsFor ''gen.h'' (ninjaText ?out)) \<le> 1"
    and 7: "length (textRuleBlocksFor ''gen.h'' (ninjaText ?out)) \<le> 1"
    by simp_all
  from T have 3: "emitNode diamondEnv diamondStore 3 ?n = Inr ?n"
    by (rule mp [OF conjunct2 [OF conjunct2 [OF conjunct2]] visited])
  have 4: "buildsFor ''gen.h'' ?out = [BuildStmt ''gen.h'' ''rule1'' []]"
    by code_simp
  have 5: "ruleBlocksFor ''gen.h'' ?out = [RuleDecl ''rule1'']"
    by code_simp
  have 8: "textBuildsFor ''gen.h'' (ninjaText ?out) = [''build gen.h: rule1'']"
    unfolding textBuildsFor_def lines by simp
  have 9: "textRuleBlocksFor ''gen.h'' (ninjaText ?out) = [''rule rule1'']"
    unfolding textRuleBlocksFor_def textRulesOf_def textBuildsFor_def lines by simp
  have out: "snd (projr (GenerateNinja diamondEnv diamondStore exampleGraph)) = ?out"
    by (simp only: run sum.sel snd_conv)
  show ?thesis
    unfolding out by (intro conjI run 1 2 3 4 5 6 7 8 9 clean)
qed

lemma emitNode_emitDeps_done_total:
  "emitNode E h a n = Inr n' \<Longrightarrow> done' n p \<Longrightarrow> done' n' p"
  "emitDeps E h ds n = Inr n' \<Longrightarrow> done' n p \<Longrightarrow> done' n' p"
  using emitNode_emitDeps_total emitNode_emitDeps_done_mono by blast+

lemma emitNode_marks:
  assumes "emitNode E h a n = Inr n'" and "deref h a = Inr node"
  shows "done' n' (Output node)"
proof (cases "done' n (Output node)")
  case True
  with assms show ?thesis by (rule_tac emitNode_emitDeps_done_total(1))
next
  case False
  let ?x = "n\<lparr>done' := (done' n)(Output node := True)\<rparr>"
  show ?thesis
  proof (cases "Cmds node = [] \<and> Deps node = [] \<and> \<not> IsPhony node")
    case True
    with assms False have "n' = ?x"
      by (subst (asm) emitNode.simps) simp
    then show ?thesis by simp
  next
    case nonleaf: False
    from assms False nonleaf obtain n2 where
      n2: "emitStatements E h a node ?x = Inr n2" and
      deps: "emitDeps E h (Deps node) n2 = Inr n'"
      by (subst (asm) emitNode.simps) (auto simp: Let_def split: sum.splits)
    have "done' n2 (Output node)"
      using emitStatements_done [OF n2] by simp
    with deps show ?thesis by (rule emitNode_emitDeps_done_total(2))
  qed
qed

text \<open>
  Claim C10. \<open>emitNode\<close> and its loop over the dependencies terminate on every store
  of nodes, cycles included: every argument is in the domain of the recursion. The
  reason is the order of the body: when the loop over the dependencies starts, the
  node's output path is done, and the output paths of the store that are not done are
  fewer than at the call. An output path that is done stays done through every
  call, the output path of the node is done when \<open>emitNode\<close> returns, and on a node
  whose output path is done the body does not run: it runs at most once for an output
  path.
\<close>

theorem emitNode_terminates:
  "emitNode_emitDeps_dom (Inl (E, h, a, n))
   \<and> emitNode_emitDeps_dom (Inr (E, h, ds, n))
   \<and> (deref h a = Inr node \<and> \<not> done' n (Output node)
        \<and> emitStatements E h a node (n\<lparr>done' := (done' n)(Output node := True)\<rparr>) = Inr n2
        \<longrightarrow> done' n2 (Output node) \<and> card (undone h n2) < card (undone h n))
   \<and> (emitNode E h a n = Inr n' \<and> done' n p \<longrightarrow> done' n' p)
   \<and> (emitDeps E h ds n = Inr n' \<and> done' n p \<longrightarrow> done' n' p)
   \<and> (emitNode E h a n = Inr n' \<and> deref h a = Inr node \<longrightarrow> done' n' (Output node))
   \<and> (deref h a = Inr node \<and> done' n (Output node) \<longrightarrow> emitNode E h a n = Inr n)"
proof (intro conjI impI)
  show "emitNode_emitDeps_dom (Inl (E, h, a, n))" "emitNode_emitDeps_dom (Inr (E, h, ds, n))"
    using emitNode_emitDeps_total by blast+
next
  assume a: "deref h a = Inr node \<and> \<not> done' n (Output node)
        \<and> emitStatements E h a node (n\<lparr>done' := (done' n)(Output node := True)\<rparr>) = Inr n2"
  then have s: "emitStatements E h a node (n\<lparr>done' := (done' n)(Output node := True)\<rparr>) = Inr n2"
    by blast
  have d: "done' n2 = (done' n)(Output node := True)"
    using emitStatements_done [OF s] by simp
  then show "done' n2 (Output node)" by simp
  from a d show "card (undone h n2) < card (undone h n)"
    by (intro undone_mark [of h a node n n2]) blast+
next
  assume "emitNode E h a n = Inr n' \<and> done' n p"
  then show "done' n' p" by (intro emitNode_emitDeps_done_total(1) [of E h a n n' p]) blast+
next
  assume "emitDeps E h ds n = Inr n' \<and> done' n p"
  then show "done' n' p" by (intro emitNode_emitDeps_done_total(2) [of E h ds n n' p]) blast+
next
  assume "emitNode E h a n = Inr n' \<and> deref h a = Inr node"
  then show "done' n' (Output node)" by (intro emitNode_marks [of E h a n n' node]) blast+
next
  assume "deref h a = Inr node \<and> done' n (Output node)"
  then show "emitNode E h a n = Inr n" by (simp add: emitNode_done_noop)
qed

lemma cycle_run:
  "\<exists>n. emitNode cycleEnv cycleStore 0 (NewNinjaGenerator exampleGraph) = Inr n
     \<and> f n = [RuleDecl ''rule0'', Description, CommandLine ''touch ping'',
              BuildStmt ''ping'' ''rule0'' '' pong'',
              RuleDecl ''rule1'', Description, CommandLine ''touch pong'',
              BuildStmt ''pong'' ''rule1'' '' ping pong'']"
proof -
  let ?ping = "\<lparr>Output = ''ping'', Cmds = [''touch ping''], Deps = [1], IsOrderOnly = False,
       IsPhony = False\<rparr>"
  let ?pong = "\<lparr>Output = ''pong'', Cmds = [''touch pong''], Deps = [0, 1], IsOrderOnly = False,
       IsPhony = False\<rparr>"
  have env: "gomaDir cycleEnv = []"
    "createRunners cycleEnv 0 = [\<lparr>cmd = ''touch ping'', ignoreError = False\<rparr>]"
    "createRunners cycleEnv 1 = [\<lparr>cmd = ''touch pong'', ignoreError = False\<rparr>]"
    by (simp_all add: cycleEnv_def exampleEnv_def)
  have store: "deref cycleStore 0 = Inr ?ping" "deref cycleStore 1 = Inr ?pong"
    by (simp_all add: cycleStore_def deref_def)
  have deps: "getDepString cycleStore ?ping = Inr '' pong''"
    "getDepString cycleStore ?pong = Inr '' ping pong''"
    by code_simp+
  have chains:
    "genShellScript [] ccReMatchString [\<lparr>cmd = ''touch ping'', ignoreError = False\<rparr>] =
       (''touch ping'', False)"
    "genShellScript [] ccReMatchString [\<lparr>cmd = ''touch pong'', ignoreError = False\<rparr>] =
       (''touch pong'', False)"
    by code_simp+
  have depfiles: "getDepfile ''touch ping'' = Inr []" "getDepfile ''touch pong'' = Inr []"
    by code_simp+
  have dec: "decimal 0 = ''0''" "decimal (Suc 0) = ''1''"
    by code_simp+
  show ?thesis
    by (simp add: NewNinjaGenerator_def exampleGraph_def env [unfolded One_nat_def]
        emitNode.simps store [unfolded One_nat_def] emitStatements_def emitRule_def
        genRuleName_def emitBuild_def fprintf_def ArgLenLimit_def
        deps [unfolded One_nat_def] chains depfiles dec)
qed

theorem emitNode_terminates_witness:
  "emitNode_emitDeps_dom (Inl (cycleEnv, cycleStore, 0, NewNinjaGenerator exampleGraph))
   \<and> emitNode_emitDeps_dom (Inr (cycleEnv, cycleStore, [0, 1], NewNinjaGenerator exampleGraph))
   \<and> \<not> isl (emitNode cycleEnv cycleStore 0 (NewNinjaGenerator exampleGraph))
   \<and> f (projr (emitNode cycleEnv cycleStore 0 (NewNinjaGenerator exampleGraph))) =
       [RuleDecl ''rule0'', Description, CommandLine ''touch ping'',
        BuildStmt ''ping'' ''rule0'' '' pong'',
        RuleDecl ''rule1'', Description, CommandLine ''touch pong'',
        BuildStmt ''pong'' ''rule1'' '' ping pong'']
   \<and> done' (projr (emitNode cycleEnv cycleStore 0 (NewNinjaGenerator exampleGraph))) ''ping''
   \<and> card (undone cycleStore
         (projr (emitStatements cycleEnv cycleStore 0
            \<lparr>Output = ''ping'', Cmds = [''touch ping''], Deps = [1], IsOrderOnly = False,
              IsPhony = False\<rparr>
            ((NewNinjaGenerator exampleGraph)
               \<lparr>done' := (done' (NewNinjaGenerator exampleGraph))(''ping'' := True)\<rparr>))))
       < card (undone cycleStore (NewNinjaGenerator exampleGraph))"
proof -
  let ?n = "NewNinjaGenerator exampleGraph"
  let ?ping = "\<lparr>Output = ''ping'', Cmds = [''touch ping''], Deps = [1], IsOrderOnly = False,
       IsPhony = False\<rparr>"
  let ?x = "?n\<lparr>done' := (done' ?n)(Output ?ping := True)\<rparr>"
  let ?n2 = "projr (emitStatements cycleEnv cycleStore 0 ?ping ?x)"
  let ?r = "projr (emitNode cycleEnv cycleStore 0 ?n)"
  from cycle_run obtain m where
    m: "emitNode cycleEnv cycleStore 0 ?n = Inr m" and
    fm: "f m = [RuleDecl ''rule0'', Description, CommandLine ''touch ping'',
        BuildStmt ''ping'' ''rule0'' '' pong'',
        RuleDecl ''rule1'', Description, CommandLine ''touch pong'',
        BuildStmt ''pong'' ''rule1'' '' ping pong'']"
    by blast
  from m have r: "emitNode cycleEnv cycleStore 0 ?n = Inr ?r" and ok: "\<not> isl (emitNode cycleEnv cycleStore 0 ?n)"
    by simp_all
  from m fm have fr: "f ?r = [RuleDecl ''rule0'', Description, CommandLine ''touch ping'',
        BuildStmt ''ping'' ''rule0'' '' pong'',
        RuleDecl ''rule1'', Description, CommandLine ''touch pong'',
        BuildStmt ''pong'' ''rule1'' '' ping pong'']"
    by simp
  have node: "deref cycleStore 0 = Inr ?ping"
    by (simp add: cycleStore_def deref_def)
  have fresh: "\<not> done' ?n (Output ?ping)"
    by (simp add: NewNinjaGenerator_def)
  have "\<exists>k. emitStatements cycleEnv cycleStore 0 ?ping ?x = Inr k"
  proof -
    have "gomaDir cycleEnv = []"
      "createRunners cycleEnv 0 = [\<lparr>cmd = ''touch ping'', ignoreError = False\<rparr>]"
      by (simp_all add: cycleEnv_def exampleEnv_def)
    moreover have "getDepString cycleStore ?ping = Inr '' pong''" by code_simp
    moreover have "genShellScript [] ccReMatchString
        [\<lparr>cmd = ''touch ping'', ignoreError = False\<rparr>] = (''touch ping'', False)"
      by code_simp
    moreover have "getDepfile ''touch ping'' = Inr []" by code_simp
    ultimately show ?thesis
      by (simp add: NewNinjaGenerator_def emitStatements_def emitRule_def genRuleName_def
          emitBuild_def fprintf_def ArgLenLimit_def)
  qed
  then have st: "emitStatements cycleEnv cycleStore 0 ?ping ?x = Inr ?n2"
    by auto
  note T = emitNode_terminates
    [where E = cycleEnv and h = cycleStore and a = 0 and n = ?n and ds = "[0, 1]"
       and node = ?ping and ?n2.0 = ?n2 and n' = ?r]
  have 1: "emitNode_emitDeps_dom (Inl (cycleEnv, cycleStore, 0, ?n))"
    by (rule T [THEN conjunct1])
  have 2: "emitNode_emitDeps_dom (Inr (cycleEnv, cycleStore, [0, 1], ?n))"
    by (rule T [THEN conjunct2, THEN conjunct1])
  have "done' ?n2 (Output ?ping) \<and> card (undone cycleStore ?n2) < card (undone cycleStore ?n)"
    by (rule mp [OF T [THEN conjunct2, THEN conjunct2, THEN conjunct1]])
       (intro conjI node fresh st)
  then have 3: "card (undone cycleStore ?n2) < card (undone cycleStore ?n)" ..
  have "done' ?r (Output ?ping)"
    by (rule mp [OF T [THEN conjunct2, THEN conjunct2, THEN conjunct2, THEN conjunct2,
          THEN conjunct2, THEN conjunct1]])
       (intro conjI r node)
  then have 4: "done' ?r ''ping''" by simp
  from 3 have 5: "card (undone cycleStore
         (projr (emitStatements cycleEnv cycleStore 0 ?ping
            (?n\<lparr>done' := (done' ?n)(''ping'' := True)\<rparr>))))
       < card (undone cycleStore ?n)"
    by simp
  show ?thesis
    by (intro conjI 1 2 ok fr 4 5)
qed

end
